theory Spec2Isabelle
  imports Complex_Main
begin

section \<open>Paths (pathlib.Path as normalizer.py uses it)\<close>

text \<open>
  A \<^verbatim>\<open>Path\<close> is its anchor (drive and root, empty for a relative path) and the
  components that follow it. A component is a file or directory name: it is not empty and
  holds no separator, so joining a name to a path adds one component. The separator is
  the backslash of the Windows flavour that \<^verbatim>\<open>FFMPEG_PATH\<close> belongs to; no
  result below depends on which character it is.
\<close>

record path =
  anchor :: string
  tail :: "string list"

definition sep :: string where
  "sep = [CHR 0x5C]"

text \<open>\<^verbatim>\<open>Path.name\<close>: the last component, the empty string when there is none.\<close>

definition name :: "path \<Rightarrow> string" where
  "name p = (if tail p = [] then [] else last (tail p))"

text \<open>\<^verbatim>\<open>Path.parent\<close>: the path without its last component; a bare anchor and
  \<^verbatim>\<open>Path('.')\<close> are their own parents.\<close>

definition parent :: "path \<Rightarrow> path" where
  "parent p = p\<lparr>tail := butlast (tail p)\<rparr>"

text \<open>\<^verbatim>\<open>p / key\<close> for a key that is one component.\<close>

definition truediv :: "path \<Rightarrow> string \<Rightarrow> path" where
  "truediv p key = p\<lparr>tail := tail p @ [key]\<rparr>"

fun join :: "string \<Rightarrow> string list \<Rightarrow> string" where
  "join s [] = []"
| "join s [x] = x"
| "join s (x # y # ys) = x @ s @ join s (y # ys)"

text \<open>\<^verbatim>\<open>str(p)\<close>.\<close>

definition path_str :: "path \<Rightarrow> string" where
  "path_str p = (if anchor p = [] \<and> tail p = [] then ''.'' else anchor p @ join sep (tail p))"

text \<open>\<^verbatim>\<open>str.rfind\<close> of one character: the index of its last occurrence.\<close>

fun rfind :: "char \<Rightarrow> string \<Rightarrow> nat option" where
  "rfind c [] = None"
| "rfind c (x # xs) =
     (case rfind c xs of
        Some i \<Rightarrow> Some (Suc i)
      | None \<Rightarrow> if x = c then Some 0 else None)"

text \<open>
  \<^verbatim>\<open>Path.suffix\<close> and \<^verbatim>\<open>Path.stem\<close> of a name, as pathlib of Python 3.6 to 3.12
  computes them: with \<^verbatim>\<open>i = name.rfind('.')\<close>, the suffix is \<^verbatim>\<open>name[i:]\<close> when
  \<^verbatim>\<open>0 < i < len(name) - 1\<close> and the empty string otherwise.
\<close>

definition suffix_of :: "string \<Rightarrow> string" where
  "suffix_of nm =
     (case rfind (CHR ''.'') nm of
        None \<Rightarrow> []
      | Some i \<Rightarrow> if 0 < i \<and> int i < int (length nm) - 1 then drop i nm else [])"

definition stem_of :: "string \<Rightarrow> string" where
  "stem_of nm =
     (case rfind (CHR ''.'') nm of
        None \<Rightarrow> nm
      | Some i \<Rightarrow> if 0 < i \<and> int i < int (length nm) - 1 then take i nm else nm)"

definition suffix :: "path \<Rightarrow> string" where
  "suffix p = suffix_of (name p)"

definition stem :: "path \<Rightarrow> string" where
  "stem p = stem_of (name p)"

section \<open>The output path of process_video\<close>

text \<open>
  \<^verbatim>\<open>output_path = video_path.parent / f"normalized_{video_path.name}"\<close>
\<close>

definition output_path :: "path \<Rightarrow> path" where
  "output_path video_path = truediv (parent video_path) (''normalized_'' @ name video_path)"

section \<open>Strings\<close>

text \<open>\<^verbatim>\<open>str.lower\<close> on ASCII text.\<close>

definition lower_char :: "char \<Rightarrow> char" where
  "lower_char c =
     (case map_of (zip ''ABCDEFGHIJKLMNOPQRSTUVWXYZ'' ''abcdefghijklmnopqrstuvwxyz'') c of
        Some l \<Rightarrow> l
      | None \<Rightarrow> c)"

definition lower :: "string \<Rightarrow> string" where
  "lower s = map lower_char s"

section \<open>Python values: floats, exceptions\<close>

text \<open>
  A Python float is a finite number, an infinity or a NaN. \<open>Finite r\<close> carries the exact
  value \<open>r\<close> of the literal it was read from; Python rounds that value to the nearest
  binary64, which keeps its sign, the only property of a duration used below. Sizes and
  times are real numbers in the same way.
\<close>

datatype pyfloat = Finite real | PosInf | NegInf | NaN

text \<open>What \<^verbatim>\<open>x >= 0\<close> says of a float.\<close>

fun non_negative :: "pyfloat \<Rightarrow> bool" where
  "non_negative (Finite r) = (0 \<le> r)"
| "non_negative PosInf = True"
| "non_negative NegInf = False"
| "non_negative NaN = False"

text \<open>\<^verbatim>\<open>str.strip()\<close>: the ASCII characters that Python counts as whitespace.\<close>

definition is_space :: "char \<Rightarrow> bool" where
  "is_space c = (c \<in> set [CHR 0x20, CHR 0x09, CHR 0x0A, CHR 0x0B, CHR 0x0C, CHR 0x0D,
                            CHR 0x1C, CHR 0x1D, CHR 0x1E, CHR 0x1F])"

definition strip :: "string \<Rightarrow> string" where
  "strip s = rev (dropWhile is_space (rev (dropWhile is_space s)))"

definition is_digit :: "char \<Rightarrow> bool" where
  "is_digit c = (48 \<le> (of_char c :: nat) \<and> (of_char c :: nat) \<le> 57)"

definition digits_value :: "string \<Rightarrow> nat" where
  "digits_value ds = foldl (\<lambda>a c. 10 * a + (of_char c - 48)) 0 ds"

text \<open>
  \<^verbatim>\<open>float(str)\<close> takes an underscore only between two digits and reads the text
  without them; \<open>prev\<close> is the character before the one looked at.
\<close>

fun strip_underscores :: "char \<Rightarrow> string \<Rightarrow> string option" where
  "strip_underscores prev [] = (if prev = CHR ''_'' then None else Some [])"
| "strip_underscores prev (c # cs) =
     (if c = CHR ''_''
      then (if is_digit prev then strip_underscores c cs else None)
      else if prev = CHR ''_'' \<and> \<not> is_digit c then None
      else map_option ((#) c) (strip_underscores c cs))"

text \<open>
  An unsigned decimal, lower-cased: digits, an optional point and more digits (one digit
  at least in all), an optional exponent \<^verbatim>\<open>e\<close>, sign, digits. None is Python's
  \<^verbatim>\<open>ValueError\<close>.
\<close>

definition parse_decimal :: "string \<Rightarrow> real option" where
  "parse_decimal s =
     (let ip = takeWhile is_digit s;
          r1 = dropWhile is_digit s;
          fp = (case r1 of c # cs \<Rightarrow> if c = CHR ''.'' then takeWhile is_digit cs else []
                | [] \<Rightarrow> []);
          r2 = (case r1 of c # cs \<Rightarrow> if c = CHR ''.'' then dropWhile is_digit cs else r1
                | [] \<Rightarrow> []);
          mant = real (digits_value (ip @ fp)) / 10 ^ length fp
      in if ip = [] \<and> fp = [] then None
         else case r2 of
           [] \<Rightarrow> Some mant
         | e # r3 \<Rightarrow>
            if e \<noteq> CHR ''e'' then None
            else
              (let neg = (case r3 of c # _ \<Rightarrow> c = CHR ''-'' | [] \<Rightarrow> False);
                   r4 = (case r3 of c # cs \<Rightarrow> if c = CHR ''-'' \<or> c = CHR ''+'' then cs else r3
                         | [] \<Rightarrow> [])
               in if r4 = [] \<or> \<not> list_all is_digit r4 then None
                  else Some (if neg then mant / 10 ^ digits_value r4
                             else mant * 10 ^ digits_value r4)))"

text \<open>
  \<^verbatim>\<open>float(x)\<close> for ASCII text \<open>x\<close>: surrounding whitespace is dropped, then a sign,
  then \<^verbatim>\<open>inf\<close>, \<^verbatim>\<open>infinity\<close> or \<^verbatim>\<open>nan\<close> in any letter case, or a decimal.
\<close>

definition py_float :: "string \<Rightarrow> pyfloat option" where
  "py_float x =
     (case strip_underscores (CHR 0x00) (strip x) of
        None \<Rightarrow> None
      | Some t \<Rightarrow>
         (let s = lower t;
              neg = (case s of c # _ \<Rightarrow> c = CHR ''-'' | [] \<Rightarrow> False);
              body = (case s of c # cs \<Rightarrow> if c = CHR ''-'' \<or> c = CHR ''+'' then cs else s
                      | [] \<Rightarrow> [])
          in if body = ''inf'' \<or> body = ''infinity'' then Some (if neg then NegInf else PosInf)
             else if body = ''nan'' then Some NaN
             else map_option (\<lambda>r. Finite (if neg then - r else r)) (parse_decimal body)))"

text \<open>
  The exceptions that the calls of normalizer.py can raise; each is a subclass of
  \<^verbatim>\<open>Exception\<close>. \<^verbatim>\<open>CalledProcessError\<close> is a \<^verbatim>\<open>SubprocessError\<close>;
  \<^verbatim>\<open>PermissionError\<close> and \<^verbatim>\<open>FileNotFoundError\<close> are \<^verbatim>\<open>OSError\<close>s;
  \<^verbatim>\<open>UnicodeDecodeError\<close> and \<^verbatim>\<open>UnicodeEncodeError\<close> are \<^verbatim>\<open>ValueError\<close>s.
  The string is what \<^verbatim>\<open>str(e)\<close> gives (\<^verbatim>\<open>e.output\<close> for a
  CalledProcessError). Interrupts (\<^verbatim>\<open>KeyboardInterrupt\<close>, \<^verbatim>\<open>SystemExit\<close>) are
  not modelled.
\<close>

datatype py_exception =
    OSError string
  | ValueError string
  | SubprocessError string
  | CalledProcessError string
  | ZeroDivisionError string
  | Exception string

fun exception_str :: "py_exception \<Rightarrow> string" where
  "exception_str (OSError m) = m"
| "exception_str (ValueError m) = m"
| "exception_str (SubprocessError m) = m"
| "exception_str (CalledProcessError m) = m"
| "exception_str (ZeroDivisionError m) = m"
| "exception_str (Exception m) = m"

text \<open>What the clause \<^verbatim>\<open>except (ValueError, subprocess.SubprocessError)\<close> catches.\<close>

fun caught_by_probe :: "py_exception \<Rightarrow> bool" where
  "caught_by_probe (ValueError m) = True"
| "caught_by_probe (SubprocessError m) = True"
| "caught_by_probe (CalledProcessError m) = True"
| "caught_by_probe e = False"

section \<open>File discovery\<close>

text \<open>
  A directory snapshot is a tree: a directory lists its entries by name, in the order in
  which the operating system enumerates them. \<open>Locked\<close> is a directory that the process
  may neither list nor search. Symbolic links are outside the snapshot. \<open>resolve\<close> walks
  the components of a path down from the top of the volume, as \<^verbatim>\<open>stat\<close> does; paths
  are taken as \<^verbatim>\<open>os.path.abspath\<close> leaves them, without \<^verbatim>\<open>.\<close> and
  \<^verbatim>\<open>..\<close> components. The walk finds a node, or finds that the path does not exist
  (\<^verbatim>\<open>ENOENT\<close>, \<^verbatim>\<open>ENOTDIR\<close>), or is denied the search of a directory on the
  way (\<^verbatim>\<open>EACCES\<close>).
\<close>

datatype node = File | Dir "(string \<times> node) list" | Locked

datatype lookup = Found node | Absent | Denied

fun resolve :: "node \<Rightarrow> string list \<Rightarrow> lookup" where
  "resolve n [] = Found n"
| "resolve File (c # cs) = Absent"
| "resolve Locked (c # cs) = Denied"
| "resolve (Dir es) (c # cs) =
     (case map_of es c of None \<Rightarrow> Absent | Some m \<Rightarrow> resolve m cs)"

text \<open>
  \<^verbatim>\<open>Path.glob('*')\<close>. pathlib first asks whether the path is a directory: a path that
  does not exist or is not a directory yields nothing, and a \<^verbatim>\<open>stat\<close> that is denied
  raises \<^verbatim>\<open>PermissionError\<close>, an \<^verbatim>\<open>OSError\<close>. It then lists the directory, each
  entry as the child path; a directory that may not be listed yields nothing.
\<close>

definition glob_star :: "node \<Rightarrow> path \<Rightarrow> py_exception + path list" where
  "glob_star fs d =
     (case resolve fs (tail d) of
        Denied \<Rightarrow> Inl (OSError ''[Errno 13] Permission denied'')
      | Found (Dir es) \<Rightarrow> Inr (map (\<lambda>e. truediv d (fst e)) es)
      | _ \<Rightarrow> Inr [])"

text \<open>
  \<^verbatim>\<open>Path.rglob('*')\<close>: the entries of the directory, then, for every entry that is
  itself a directory, what the same walk yields below it; a directory below the root
  that may not be listed is passed over.
\<close>

fun rglob_node :: "path \<Rightarrow> node \<Rightarrow> path list"
  and rglob_entries :: "path \<Rightarrow> (string \<times> node) list \<Rightarrow> path list" where
  "rglob_node d File = []"
| "rglob_node d Locked = []"
| "rglob_node d (Dir es) = map (\<lambda>e. truediv d (fst e)) es @ rglob_entries d es"
| "rglob_entries d [] = []"
| "rglob_entries d (e # es) = rglob_node (truediv d (fst e)) (snd e) @ rglob_entries d es"

definition rglob_star :: "node \<Rightarrow> path \<Rightarrow> py_exception + path list" where
  "rglob_star fs d =
     (case resolve fs (tail d) of
        Denied \<Rightarrow> Inl (OSError ''[Errno 13] Permission denied'')
      | Found n \<Rightarrow> Inr (rglob_node d n)
      | Absent \<Rightarrow> Inr [])"

definition video_extensions :: "string list" where
  "video_extensions = [''.mp4'', ''.mkv'', ''.avi'', ''.mov'', ''.wmv'', ''.flv'']"

text \<open>
  get_video_files: the list comprehension over the walk; an error of the walk leaves the
  function, which has no handler.
\<close>

definition get_video_files :: "node \<Rightarrow> path \<Rightarrow> bool \<Rightarrow> py_exception + path list" where
  "get_video_files fs directory recursive =
     (let directory_path = directory in
      if recursive
      then (case rglob_star fs directory_path of
              Inl e \<Rightarrow> Inl e
            | Inr found \<Rightarrow> Inr [f \<leftarrow> found. lower (suffix f) \<in> set video_extensions])
      else (case glob_star fs directory_path of
              Inl e \<Rightarrow> Inl e
            | Inr found \<Rightarrow> Inr [f \<leftarrow> found. lower (suffix f) \<in> set video_extensions]))"

text \<open>A snapshot is well formed when no directory lists a name twice.\<close>

fun wf_node :: "node \<Rightarrow> bool"
  and wf_entries :: "(string \<times> node) list \<Rightarrow> bool" where
  "wf_node File = True"
| "wf_node Locked = True"
| "wf_node (Dir es) = (distinct (map fst es) \<and> wf_entries es)"
| "wf_entries [] = True"
| "wf_entries (e # es) = (wf_node (snd e) \<and> wf_entries es)"

text \<open>The path reached from \<open>d\<close> through the components \<open>cs\<close>.\<close>

definition descend :: "path \<Rightarrow> string list \<Rightarrow> path" where
  "descend d cs = d\<lparr>tail := tail d @ cs\<rparr>"

text \<open>The path with the components \<open>cs\<close> names an entry of the snapshot.\<close>

definition reaches :: "node \<Rightarrow> string list \<Rightarrow> bool" where
  "reaches n cs = (case resolve n cs of Found m \<Rightarrow> True | Absent \<Rightarrow> False | Denied \<Rightarrow> False)"

section \<open>The world outside the program\<close>

text \<open>
  \<^verbatim>\<open>subprocess.run(cmd, capture_output=True, text=True)\<close> either returns the
  completed process (its return code and standard output) or raises.
\<close>

datatype run_result = Completed int string | Raised py_exception

text \<open>
  The engine child as the monitoring loop of process_video sees it. At the \<open>k\<close>-th test
  of the loop condition either \<^verbatim>\<open>poll()\<close> is None, and the \<^verbatim>\<open>readline()\<close> that
  follows returns a line (empty at end of stream) or raises (the stream is decoded as
  text); or \<^verbatim>\<open>poll()\<close> gives the return code, and the second component is what
  \<^verbatim>\<open>stderr.read()\<close> would do then: return the rest of the stream, or raise.
\<close>

datatype step = Running "py_exception + string" | Terminated int "py_exception + string"

text \<open>What the program prints, each message with the values it formats.\<close>

datatype message =
    Scanning path
  | FoundFiles nat
  | Processing path
  | InputFileSize real
  | FileOf nat nat
  | StartingFFmpeg
  | ProgressLine string
  | FFmpegError string
  | CompletedSuccessfully
  | TimeTaken real
  | AverageSpeed real
  | OutputFileSize real
  | FFmpegProcessError string
  | ErrorProcessing path string
  | FullErrorDetails py_exception

text \<open>
  What the program does to the world, in the order in which it does it: a print that
  wrote its message, a print that raised instead (standard output cannot encode the
  text, or is closed), a call of \<^verbatim>\<open>os.path.getsize\<close>, a \<^verbatim>\<open>subprocess.run\<close> (which
  returns when its child has ended), the start of an engine child by \<^verbatim>\<open>Popen\<close>, and the
  moment \<^verbatim>\<open>poll()\<close> reports that this child has ended.
\<close>

datatype effect =
    Print message
  | PrintRaised message
  | GetSize path
  | Run "string list"
  | Spawn "string list"
  | Exit int

text \<open>
  \<open>sys_stdout\<close> says of each message whether printing it raises, and what; the other fields
  are the results of the calls named.
\<close>

record world =
  snapshot :: node
  sys_stdout :: "message \<Rightarrow> py_exception option"
  getsize_input :: "path \<Rightarrow> py_exception + nat"
  getsize_output :: "path \<Rightarrow> py_exception + nat"
  run :: "string list \<Rightarrow> run_result"
  popen :: "string list \<Rightarrow> py_exception + (nat \<Rightarrow> step)"
  time_start :: "path \<Rightarrow> real"
  time_end :: "path \<Rightarrow> real"

section \<open>Computations\<close>

text \<open>
  A computation returns a value or raises an exception, and leaves the effects it had
  until then; a computation that does not return at all is None.
\<close>

type_synonym 'a comp = "((py_exception + 'a) \<times> effect list) option"

definition raise :: "py_exception \<Rightarrow> 'a comp" where
  "raise e = Some (Inl e, [])"

text \<open>One statement after another: an exception of the first skips the second.\<close>

definition and_then :: "'a comp \<Rightarrow> ('a \<Rightarrow> 'b comp) \<Rightarrow> 'b comp" where
  "and_then m f =
     (case m of
        None \<Rightarrow> None
      | Some (Inl e, tr) \<Rightarrow> Some (Inl e, tr)
      | Some (Inr x, tr) \<Rightarrow>
         (case f x of None \<Rightarrow> None | Some (r, tr') \<Rightarrow> Some (r, tr @ tr')))"

text \<open>\<^verbatim>\<open>try: m except Exception as e: h(e)\<close>\<close>

definition try_except :: "'a comp \<Rightarrow> (py_exception \<Rightarrow> 'a comp) \<Rightarrow> 'a comp" where
  "try_except m h =
     (case m of
        None \<Rightarrow> None
      | Some (Inr x, tr) \<Rightarrow> Some (Inr x, tr)
      | Some (Inl e, tr) \<Rightarrow>
         (case h e of None \<Rightarrow> None | Some (r, tr') \<Rightarrow> Some (r, tr @ tr')))"

text \<open>\<^verbatim>\<open>print(...)\<close>\<close>

definition py_print :: "world \<Rightarrow> message \<Rightarrow> unit comp" where
  "py_print w m =
     (case sys_stdout w m of
        None \<Rightarrow> Some (Inr (), [Print m])
      | Some e \<Rightarrow> Some (Inl e, [PrintRaised m]))"

text \<open>\<^verbatim>\<open>subprocess.Popen(cmd, ...)\<close>: the child is started, or the call raises.\<close>

definition Popen :: "world \<Rightarrow> string list \<Rightarrow> (nat \<Rightarrow> step) comp" where
  "Popen w cmd =
     (case popen w cmd of
        Inl e \<Rightarrow> Some (Inl e, [])
      | Inr process \<Rightarrow> Some (Inr process, [Spawn cmd]))"

section \<open>The functions of normalizer.py\<close>

definition FFMPEG_PATH :: string where
  "FFMPEG_PATH = ''C:'' @ sep @ ''Program Files'' @ sep @ ''ffmpeg'' @ sep @ ''bin'' @ sep @ ''ffmpeg.exe''"

text \<open>\<open>os_path_getsize\<close> is \<^verbatim>\<open>os.path.getsize\<close> at the moment of the call.\<close>

definition get_file_size :: "(path \<Rightarrow> py_exception + nat) \<Rightarrow> path \<Rightarrow> py_exception + real" where
  "get_file_size os_path_getsize file_path =
     (case os_path_getsize file_path of
        Inl e \<Rightarrow> Inl e
      | Inr bytes \<Rightarrow> Inr (real bytes / (1024 * 1024)))"

definition probe_cmd :: "path \<Rightarrow> string list" where
  "probe_cmd video_path =
     [FFMPEG_PATH, ''-i'', path_str video_path, ''-v'', ''error'',
      ''-select_streams'', ''v:0'', ''-show_entries'', ''stream=duration'',
      ''-of'', ''default=noprint_wrappers=1:nokey=1'']"

definition fallback_cmd :: "path \<Rightarrow> string list" where
  "fallback_cmd video_path =
     [FFMPEG_PATH, ''-i'', path_str video_path, ''-v'', ''error'',
      ''-show_entries'', ''format=duration'',
      ''-of'', ''default=noprint_wrappers=1:nokey=1'']"

text \<open>
  \<^verbatim>\<open>float(result.stdout.strip())\<close> after a \<^verbatim>\<open>subprocess.run\<close>: the float, or the
  exception that the run or the conversion raises.
\<close>

definition run_and_parse :: "world \<Rightarrow> string list \<Rightarrow> py_exception + pyfloat" where
  "run_and_parse w cmd =
     (case run w cmd of
        Raised e \<Rightarrow> Inl e
      | Completed returncode stdout \<Rightarrow>
         (case py_float (strip stdout) of
            None \<Rightarrow> Inl (ValueError ''could not convert string to float'')
          | Some duration \<Rightarrow> Inr duration))"

definition get_video_duration :: "world \<Rightarrow> path \<Rightarrow> (py_exception + pyfloat) \<times> effect list" where
  "get_video_duration w video_path =
     (case run_and_parse w (probe_cmd video_path) of
        Inr duration \<Rightarrow> (Inr duration, [Run (probe_cmd video_path)])
      | Inl e \<Rightarrow>
         if caught_by_probe e
         then (case run w (fallback_cmd video_path) of
                 Raised e' \<Rightarrow> (Inl e', [Run (probe_cmd video_path), Run (fallback_cmd video_path)])
               | Completed returncode stdout \<Rightarrow>
                  (case py_float (strip stdout) of
                     Some duration \<Rightarrow>
                       (Inr duration, [Run (probe_cmd video_path), Run (fallback_cmd video_path)])
                   | None \<Rightarrow>
                       (Inr (Finite 0), [Run (probe_cmd video_path), Run (fallback_cmd video_path)])))
         else (Inl e, [Run (probe_cmd video_path)]))"

definition extract_cmd :: "path \<Rightarrow> path \<Rightarrow> string list" where
  "extract_cmd video_path output_path' =
     [FFMPEG_PATH, ''-hwaccel'', ''auto'', ''-hide_banner'', ''-i'', path_str video_path,
      ''-map'', ''0'', ''-threads'', ''auto'', ''-c:v'', ''copy'', ''-c:s'', ''copy'',
      ''-c:a'', ''aac'', ''-b:a'', ''192k'', ''-af'', ''loudnorm=I=-14:LRA=11:TP=-1.5'',
      ''-stats'', ''-v'', ''info'', ''-y'', path_str output_path']"

text \<open>\<^verbatim>\<open>sub in line\<close>.\<close>

fun contains :: "string \<Rightarrow> string \<Rightarrow> bool" where
  "contains sub [] = (sub = [])"
| "contains sub (c # cs) = (take (length sub) (c # cs) = sub \<or> contains sub cs)"

text \<open>
  The loop \<^verbatim>\<open>while process.poll() is None\<close>, from its \<open>k\<close>-th test on. It ends when
  \<^verbatim>\<open>poll()\<close> gives the return code; it is left by the exception of a
  \<^verbatim>\<open>readline()\<close> or of the print of a progress line, and the child is then still
  alive; for a child that never ends and never fails a read it does not return.
  \<open>shown\<close> are the effects of the loop so far.
\<close>

partial_function (option) monitor ::
  "world \<Rightarrow> (nat \<Rightarrow> step) \<Rightarrow> nat \<Rightarrow> effect list \<Rightarrow> (int \<times> (py_exception + string)) comp" where
  "monitor w process k shown =
     (case process k of
        Terminated returncode rest \<Rightarrow> Some (Inr (returncode, rest), shown @ [Exit returncode])
      | Running readline \<Rightarrow>
         (case readline of
            Inl e \<Rightarrow> Some (Inl e, shown)
          | Inr line \<Rightarrow>
             if line \<noteq> [] \<and> (contains ''frame='' line \<or> contains ''time='' line)
             then (case sys_stdout w (ProgressLine (strip line)) of
                     Some e \<Rightarrow> Some (Inl e, shown @ [PrintRaised (ProgressLine (strip line))])
                   | None \<Rightarrow>
                       monitor w process (Suc k) (shown @ [Print (ProgressLine (strip line))]))
             else monitor w process (Suc k) shown))"

declare monitor.simps [code]

text \<open>Python's \<^verbatim>\<open>a / b\<close> on floats.\<close>

definition float_truediv :: "real \<Rightarrow> real \<Rightarrow> py_exception + real" where
  "float_truediv a b = (if b = 0 then Inl (ZeroDivisionError ''float division by zero'') else Inr (a / b))"

text \<open>\<^verbatim>\<open>average_speed = input_size / process_time if process_time > 0 else 0\<close>\<close>

definition average_speed :: "real \<Rightarrow> real \<Rightarrow> py_exception + real" where
  "average_speed input_size process_time =
     (if process_time > 0 then float_truediv input_size process_time else Inr 0)"

text \<open>
  process_video. The body from the print of the position on is the \<^verbatim>\<open>try\<close> block;
  its clause \<^verbatim>\<open>except subprocess.CalledProcessError as e\<close> prints and raises the
  exception again, and every other exception passes.
\<close>

definition process_video :: "world \<Rightarrow> path \<Rightarrow> nat \<Rightarrow> nat \<Rightarrow> unit comp" where
  "process_video w video_path current_file total_files =
     (let start_time = time_start w video_path in
     and_then (py_print w (Processing video_path)) (\<lambda>_.
     (let output_path' = output_path video_path in
     and_then (Some (get_file_size (getsize_input w) video_path, [GetSize video_path])) (\<lambda>input_size.
     and_then (Some (get_video_duration w video_path)) (\<lambda>duration.
     and_then (py_print w (InputFileSize input_size)) (\<lambda>_.
     (let cmd = extract_cmd video_path output_path' in
     try_except
        (and_then (py_print w (FileOf current_file total_files)) (\<lambda>_.
           and_then (py_print w StartingFFmpeg) (\<lambda>_.
           and_then (Popen w cmd) (\<lambda>process.
           and_then (monitor w process 0 []) (\<lambda>(returncode, rest).
           if returncode \<noteq> 0
             then and_then (Some (rest, [])) (\<lambda>error_message.
                and_then (py_print w (FFmpegError error_message)) (\<lambda>_.
                raise (Exception error_message)))
             else (let end_time = time_end w video_path;
                    process_time = end_time - start_time in
                and_then (Some (get_file_size (getsize_output w) output_path', [GetSize output_path'])) (\<lambda>output_size.
                and_then (Some (average_speed input_size process_time, [])) (\<lambda>speed.
                and_then (py_print w CompletedSuccessfully) (\<lambda>_.
                and_then (py_print w (TimeTaken process_time)) (\<lambda>_.
                and_then (py_print w (AverageSpeed speed)) (\<lambda>_.
                py_print w (OutputFileSize output_size))))))))))))
        (\<lambda>e. case e of
                CalledProcessError out \<Rightarrow>
                  and_then (py_print w (FFmpegProcessError out)) (\<lambda>_. raise e)
              | _ \<Rightarrow> raise e))))))))"

text \<open>
  The loop of main over \<^verbatim>\<open>enumerate(video_files, 1)\<close>. Its clause
  \<^verbatim>\<open>except Exception as e\<close> prints twice; an exception of these prints is in no
  \<^verbatim>\<open>try\<close> and leaves the loop.
\<close>

fun for_loop :: "world \<Rightarrow> nat \<Rightarrow> (nat \<times> path) list \<Rightarrow> unit comp" where
  "for_loop w total_files [] = Some (Inr (), [])"
| "for_loop w total_files ((index, video_path) # rest) =
     and_then
       (try_except (process_video w video_path index total_files)
          (\<lambda>e. and_then (py_print w (ErrorProcessing video_path (exception_str e))) (\<lambda>_.
                py_print w (FullErrorDetails e))))
       (\<lambda>_. for_loop w total_files rest)"

text \<open>
  main, from the two answers it reads: the directory (made absolute) and whether to
  recurse. Nothing in main is in a \<^verbatim>\<open>try\<close> but the call of process_video.
\<close>

definition main :: "world \<Rightarrow> path \<Rightarrow> bool \<Rightarrow> unit comp" where
  "main w video_directory recursive =
     and_then (py_print w (Scanning video_directory)) (\<lambda>_.
     and_then (Some (get_video_files (snapshot w) video_directory recursive, [])) (\<lambda>video_files.
     let total_files = length video_files in
     and_then (py_print w (FoundFiles total_files)) (\<lambda>_.
     for_loop w total_files (enumerate 1 video_files))))"

section \<open>Reading a trace\<close>

text \<open>The engine child ends: at some test of the loop condition \<^verbatim>\<open>poll()\<close> gives a return code.\<close>

definition terminates :: "(nat \<Rightarrow> step) \<Rightarrow> bool" where
  "terminates process = (\<exists>k returncode rest. process k = Terminated returncode rest)"

text \<open>
  The files whose processing was started, in the order of the trace: process_video
  begins with the print of the path, whether or not that print raises.
\<close>

fun attempted :: "effect list \<Rightarrow> path list" where
  "attempted [] = []"
| "attempted (Print (Processing p) # es) = p # attempted es"
| "attempted (PrintRaised (Processing p) # es) = p # attempted es"
| "attempted (e # es) = attempted es"

text \<open>The failures that the loop of main recorded in print: the path and the detail.\<close>

fun failures :: "effect list \<Rightarrow> (path \<times> string) list" where
  "failures [] = []"
| "failures (Print (ErrorProcessing p detail) # es) = (p, detail) # failures es"
| "failures (e # es) = failures es"

text \<open>
  A trace is sequential when it can be read from start to end with at most one engine
  child alive: a child is started only while none is alive, the end of a child is seen
  only while one is alive, and the start of a file, the size of a file and a probe are
  taken only while none is alive. The flag says whether a child is alive; at the end of
  the trace none is.
\<close>

fun sequential :: "bool \<Rightarrow> effect list \<Rightarrow> bool" where
  "sequential alive [] = (\<not> alive)"
| "sequential alive (Spawn cmd # es) = (\<not> alive \<and> sequential True es)"
| "sequential alive (Exit returncode # es) = (alive \<and> sequential False es)"
| "sequential alive (GetSize p # es) = (\<not> alive \<and> sequential alive es)"
| "sequential alive (Run cmd # es) = (\<not> alive \<and> sequential alive es)"
| "sequential alive (Print (Processing p) # es) = (\<not> alive \<and> sequential alive es)"
| "sequential alive (PrintRaised (Processing p) # es) = (\<not> alive \<and> sequential alive es)"
| "sequential alive (Print m # es) = sequential alive es"
| "sequential alive (PrintRaised m # es) = sequential alive es"

text \<open>
  The effects that process_video may have for the input \<open>p\<close>: sizes are read of the
  input and of the output only, the probes are the two commands for \<open>p\<close>, and the one
  child started is the engine command from \<open>p\<close> to its output path.
\<close>

definition own_effect :: "path \<Rightarrow> effect \<Rightarrow> bool" where
  "own_effect p e \<longleftrightarrow>
     (\<forall>q. e = GetSize q \<longrightarrow> q = p \<or> q = output_path p)
     \<and> (\<forall>c. e = Run c \<longrightarrow> c = probe_cmd p \<or> c = fallback_cmd p)
     \<and> (\<forall>c. e = Spawn c \<longrightarrow> c = extract_cmd p (output_path p))"

text \<open>Every effect of a computation, when it returns or raises, has the property.\<close>

definition only :: "(effect \<Rightarrow> bool) \<Rightarrow> 'a comp \<Rightarrow> bool" where
  "only P m \<longleftrightarrow> (\<forall>r tr. m = Some (r, tr) \<longrightarrow> (\<forall>e\<in>set tr. P e))"

text \<open>A computation returns or raises: it does not go on for ever.\<close>

definition returns :: "'a comp \<Rightarrow> bool" where
  "returns m \<longleftrightarrow> m \<noteq> None"

text \<open>Effects that are prints of progress lines.\<close>

definition progress :: "effect list \<Rightarrow> bool" where
  "progress shown \<longleftrightarrow> (\<forall>e\<in>set shown. \<exists>s. e = Print (ProgressLine s))"

text \<open>
  A step of the engine child at which the monitoring loop goes on: the child is alive,
  the read returns a line, and the line, when it is a progress line, can be printed.
\<close>

definition readable :: "world \<Rightarrow> step \<Rightarrow> bool" where
  "readable w s =
     (case s of
        Terminated returncode rest \<Rightarrow> False
      | Running readline \<Rightarrow>
         (case readline of
            Inl e \<Rightarrow> False
          | Inr line \<Rightarrow>
             line \<noteq> [] \<and> (contains ''frame='' line \<or> contains ''time='' line)
               \<longrightarrow> sys_stdout w (ProgressLine (strip line)) = None))"

text \<open>An effect that starts no file and records no failure.\<close>

definition quiet :: "effect \<Rightarrow> bool" where
  "quiet e \<longleftrightarrow> attempted [e] = [] \<and> failures [e] = []"

text \<open>
  The failure that the step for one file of the batch leaves to record, when processing
  the file raised: the path and the text of the exception.
\<close>

definition raised :: "world \<Rightarrow> nat \<Rightarrow> nat \<times> path \<Rightarrow> (path \<times> string) list" where
  "raised w n x =
     (case process_video w (snd x) (fst x) n of
        Some (Inl e, tr) \<Rightarrow> [(snd x, exception_str e)]
      | _ \<Rightarrow> [])"

section \<open>Concrete inputs\<close>

definition example_fs :: node where
  "example_fs =
     Dir [(''videos'',
       Dir [(''a.mp4'', File), (''CLIP.MP4'', File), (''notes.txt'', File), (''b.mkv'', File),
            (''sub'', Dir [(''c.MkV'', File), (''x.mp4'', Dir [(''d.avi'', File)])])]),
          (''private'', Locked)]"

definition videos :: path where
  "videos = \<lparr>anchor = ''C:'' @ sep, tail = [''videos'']\<rparr>"

definition clip :: "string \<Rightarrow> path" where
  "clip nm = \<lparr>anchor = ''C:'' @ sep, tail = [''videos'', nm]\<rparr>"

text \<open>A directory below one that the process may not search.\<close>

definition behind_locked :: path where
  "behind_locked = \<lparr>anchor = ''C:'' @ sep, tail = [''private'', ''videos'']\<rparr>"

text \<open>An engine child that prints two progress lines and ends with status 0.\<close>

definition good_child :: "nat \<Rightarrow> step" where
  "good_child k =
     (if k = 0 then Running (Inr ''Input #0, matroska'')
      else if k < 3 then Running (Inr ''frame=  250 fps= 25 time=00:00:10.00 '')
      else Terminated 0 (Inr []))"

text \<open>An engine child that ends with status 1 and an error text left to read.\<close>

definition bad_child :: "nat \<Rightarrow> step" where
  "bad_child k =
     (if k = 0 then Running (Inr ''Input #0, avi'')
      else Terminated 1 (Inr ''Conversion failed!''))"

text \<open>
  An engine child whose second line cannot be decoded: \<^verbatim>\<open>readline()\<close> raises
  \<^verbatim>\<open>UnicodeDecodeError\<close> while the child goes on running.
\<close>

definition garbled_child :: "nat \<Rightarrow> step" where
  "garbled_child k =
     (if k = 0 then Running (Inr ''Input #0, mov'')
      else Running (Inl (ValueError ''codec cannot decode byte 0x81'')))"

text \<open>
  A world in which every print succeeds, every file has 10 MiB, outputs have 5 MiB, a
  run takes 10 seconds, the two probes print \<open>out1\<close> and \<open>out2\<close>, and \<open>children\<close> gives
  the engine child.
\<close>

definition example_world ::
  "string \<Rightarrow> string \<Rightarrow> (string list \<Rightarrow> py_exception + (nat \<Rightarrow> step)) \<Rightarrow> world" where
  "example_world out1 out2 children =
     \<lparr>snapshot = example_fs,
      sys_stdout = (\<lambda>m. None),
      getsize_input = (\<lambda>p. Inr 10485760),
      getsize_output = (\<lambda>p. Inr 5242880),
      run = (\<lambda>cmd. if cmd ! 5 = ''-select_streams'' then Completed 0 out1 else Completed 0 out2),
      popen = children,
      time_start = (\<lambda>p. 100),
      time_end = (\<lambda>p. 110)\<rparr>"

definition no_child :: "string list \<Rightarrow> py_exception + (nat \<Rightarrow> step)" where
  "no_child cmd = Inl (OSError ''No such file or directory'')"

text \<open>A world in which the engine binary cannot be started.\<close>

definition no_engine :: world where
  "no_engine =
     (example_world [] [] no_child)
       \<lparr>run := (\<lambda>cmd. Raised (OSError ''[Errno 2] No such file or directory''))\<rparr>"

text \<open>The engine fails on \<^verbatim>\<open>CLIP.MP4\<close> and succeeds on every other file.\<close>

definition second_fails :: "string list \<Rightarrow> py_exception + (nat \<Rightarrow> step)" where
  "second_fails cmd =
     Inr (if last cmd = path_str (clip ''normalized_CLIP.MP4'') then bad_child else good_child)"

text \<open>The diagnostic stream of the engine cannot be decoded for \<^verbatim>\<open>a.mp4\<close>.\<close>

definition first_garbled :: "string list \<Rightarrow> py_exception + (nat \<Rightarrow> step)" where
  "first_garbled cmd =
     Inr (if last cmd = path_str (clip ''normalized_a.mp4'') then garbled_child else good_child)"

text \<open>Standard output cannot encode the name \<^verbatim>\<open>CLIP.MP4\<close>.\<close>

definition cannot_print :: "message \<Rightarrow> py_exception option" where
  "cannot_print m =
     (case m of
        Processing p \<Rightarrow>
          if p = clip ''CLIP.MP4'' then Some (ValueError ''codec cannot encode character'') else None
      | ErrorProcessing p d \<Rightarrow>
          if p = clip ''CLIP.MP4'' then Some (ValueError ''codec cannot encode character'') else None
      | _ \<Rightarrow> None)"

section \<open>Facts about paths\<close>

lemma stem_suffix: "stem_of nm @ suffix_of nm = nm"
  by (simp add: stem_of_def suffix_of_def split: option.split)

lemma rfind_append:
  "rfind c (xs @ ys) =
     (case rfind c ys of Some i \<Rightarrow> Some (length xs + i) | None \<Rightarrow> rfind c xs)"
  by (induction xs) (auto split: option.splits)

lemma suffix_of_prefixed:
  assumes "suffix_of nm \<noteq> []"
  shows "suffix_of (''normalized_'' @ nm) = suffix_of nm"
proof -
  from assms obtain i where i: "rfind (CHR ''.'') nm = Some i" "0 < i" "int i < int (length nm) - 1"
    by (auto simp: suffix_of_def split: option.splits if_splits)
  have "rfind (CHR ''.'') (''normalized_'' @ nm) = Some (length ''normalized_'' + i)"
    using i(1) by (simp only: rfind_append option.case)
  then show ?thesis
    using i by (simp add: suffix_of_def)
qed

lemma length_join_snoc:
  "length (join s (xs @ [x])) = (if xs = [] then length x else length (join s xs) + length s + length x)"
  by (induction s xs rule: join.induct) auto

lemma output_path_tail:
  "tail p = dir @ [nm] \<Longrightarrow> output_path p = p\<lparr>tail := dir @ [''normalized_'' @ nm]\<rparr>"
  by (simp add: output_path_def truediv_def parent_def name_def)

lemma length_str_output_path:
  assumes "tail p \<noteq> []"
  shows "length (path_str (output_path p)) = length (path_str p) + 11"
proof -
  from assms obtain dir nm where t: "tail p = dir @ [nm]"
    by (metis append_butlast_last_id)
  have "length (join sep (dir @ [''normalized_'' @ nm])) = length (join sep (dir @ [nm])) + 11"
    by (simp only: length_join_snoc) simp
  then show ?thesis
    using t by (simp add: output_path_tail [OF t] path_str_def)
qed

section \<open>Output naming\<close>

text \<open>
  Claim C5. For an input path whose components are a directory part followed by the file
  name \<open>stem @ ext\<close>, the output path that process_video computes is the same anchor and
  directory part followed by the one name \<open>normalized_ @ stem @ ext\<close>: same parent, one
  fixed prefix, the rest of the name unchanged, and a suffix that the input name has is
  the suffix of the output name. The output path
  is a function of the input path alone, so a second run on the same input computes the
  same name; that name is never the doubly prefixed one.
\<close>

theorem output_naming:
  assumes "tail p = dir @ [st @ ext]"
  shows "output_path p = p\<lparr>tail := dir @ [''normalized_'' @ st @ ext]\<rparr>
       \<and> parent (output_path p) = parent p
       \<and> name (output_path p) = ''normalized_'' @ st @ ext
       \<and> name (output_path p) = ''normalized_'' @ stem p @ suffix p
       \<and> (suffix p \<noteq> [] \<longrightarrow> suffix (output_path p) = suffix p)
       \<and> name (output_path p) \<noteq> ''normalized_normalized_'' @ st @ ext"
proof -
  have o: "output_path p = p\<lparr>tail := dir @ [''normalized_'' @ st @ ext]\<rparr>"
    using assms by (rule output_path_tail)
  have n: "name p = st @ ext"
    using assms by (simp add: name_def)
  have d: "stem p @ suffix p = st @ ext"
    using n by (simp add: stem_def suffix_def stem_suffix)
  have nm: "name (output_path p) = ''normalized_'' @ name p"
    using assms by (simp add: o name_def)
  have s: "suffix p \<noteq> [] \<longrightarrow> suffix (output_path p) = suffix p"
    unfolding suffix_def nm by (rule impI) (rule suffix_of_prefixed)
  show ?thesis
    using assms d s by (simp add: o name_def parent_def)
qed

theorem output_naming_witness:
  "output_path \<lparr>anchor = ''C:'' @ sep, tail = [''videos'', ''clip.mp4'']\<rparr>
     = \<lparr>anchor = ''C:'' @ sep, tail = [''videos'', ''normalized_clip.mp4'']\<rparr>
   \<and> suffix \<lparr>anchor = ''C:'' @ sep, tail = [''videos'', ''clip.mp4'']\<rparr> = ''.mp4''
   \<and> suffix (output_path \<lparr>anchor = ''C:'' @ sep, tail = [''videos'', ''clip.mp4'']\<rparr>) = ''.mp4''
   \<and> name (output_path \<lparr>anchor = ''C:'' @ sep, tail = [''videos'', ''clip.mp4'']\<rparr>)
       \<noteq> ''normalized_normalized_clip.mp4''"
proof -
  let ?p = "\<lparr>anchor = ''C:'' @ sep, tail = [''videos'', ''clip.mp4'']\<rparr>"
  have s: "suffix ?p = ''.mp4''"
    by (simp add: suffix_def name_def suffix_of_def)
  have t: "tail ?p = [''videos''] @ [''clip'' @ ''.mp4'']"
    by simp
  note o = output_naming [OF t]
  have a: "output_path ?p = \<lparr>anchor = ''C:'' @ sep, tail = [''videos'', ''normalized_clip.mp4'']\<rparr>"
    using o [THEN conjunct1] by simp
  have b: "suffix (output_path ?p) = ''.mp4''"
    using o [THEN conjunct2, THEN conjunct2, THEN conjunct2, THEN conjunct2, THEN conjunct1] s
    by simp
  have c: "name (output_path ?p) \<noteq> ''normalized_normalized_clip.mp4''"
    using o [THEN conjunct2, THEN conjunct2, THEN conjunct2, THEN conjunct2, THEN conjunct2]
    by simp
  show ?thesis
    using s a b c by simp
qed

section \<open>File discovery: what the two walks return\<close>

lemma reaches_iff: "reaches n cs \<longleftrightarrow> (\<exists>m. resolve n cs = Found m)"
  by (simp add: reaches_def split: lookup.splits)

lemma reaches_simps:
  "reaches n []"
  "\<not> reaches File (c # cs)"
  "\<not> reaches Locked (c # cs)"
  "reaches (Dir es) (c # cs) \<longleftrightarrow> (\<exists>m. map_of es c = Some m \<and> reaches m cs)"
  by (auto simp: reaches_iff split: option.splits)

lemma descend_truediv: "descend (truediv d a) cs = descend d (a # cs)"
  by (simp add: descend_def truediv_def)

lemma truediv_descend: "truediv d a = descend d [a]"
  by (simp add: descend_def truediv_def)

lemma descend_inj: "descend d cs = descend d cs' \<longleftrightarrow> cs = cs'"
proof
  assume "descend d cs = descend d cs'"
  then have "tail (descend d cs) = tail (descend d cs')" by simp
  then show "cs = cs'" by (simp add: descend_def)
qed simp

lemma rglob_mem:
  "wf_node n \<Longrightarrow> p \<in> set (rglob_node d n) \<longleftrightarrow> (\<exists>cs. cs \<noteq> [] \<and> reaches n cs \<and> p = descend d cs)"
  "wf_entries es \<Longrightarrow> distinct (map fst es) \<Longrightarrow> p \<in> set (rglob_entries d es) \<longleftrightarrow>
     (\<exists>c m cs. map_of es c = Some m \<and> cs \<noteq> [] \<and> reaches m cs \<and> p = descend d (c # cs))"
proof (induction d n and d es arbitrary: p and p rule: rglob_node_rglob_entries.induct)
  case (1 d)
  show ?case
  proof
    assume "\<exists>cs. cs \<noteq> [] \<and> reaches File cs \<and> p = descend d cs"
    then obtain cs where "cs \<noteq> []" "reaches File cs" by blast
    then show "p \<in> set (rglob_node d File)" by (cases cs) (auto simp: reaches_simps)
  qed simp
next
  case (2 d)
  show ?case
  proof
    assume "\<exists>cs. cs \<noteq> [] \<and> reaches Locked cs \<and> p = descend d cs"
    then obtain cs where "cs \<noteq> []" "reaches Locked cs" by blast
    then show "p \<in> set (rglob_node d Locked)" by (cases cs) (auto simp: reaches_simps)
  qed simp
next
  case (3 d es)
  have wf: "wf_entries es" "distinct (map fst es)" using 3 by auto
  note IH = "3.IH" [OF wf]
  show ?case
  proof
    assume "p \<in> set (rglob_node d (Dir es))"
    then consider e where "e \<in> set es" "p = truediv d (fst e)" | "p \<in> set (rglob_entries d es)"
      by auto
    then show "\<exists>cs. cs \<noteq> [] \<and> reaches (Dir es) cs \<and> p = descend d cs"
    proof cases
      case 1
      then have "map_of es (fst e) \<noteq> None"
        by (metis  map_of_eq_None_iff image_eqI)
      then have "reaches (Dir es) [fst e]" by (auto simp: reaches_simps)
      then show ?thesis using 1 by (metis truediv_descend list.distinct(1))
    next
      case 2
      then obtain c m cs where "map_of es c = Some m" "cs \<noteq> []" "reaches m cs" "p = descend d (c # cs)"
        using IH by blast
      then have "reaches (Dir es) (c # cs)" by (simp add: reaches_simps)
      then show ?thesis using \<open>p = descend d (c # cs)\<close> by blast
    qed
  next
    assume "\<exists>cs. cs \<noteq> [] \<and> reaches (Dir es) cs \<and> p = descend d cs"
    then obtain c cs where r: "reaches (Dir es) (c # cs)" and p: "p = descend d (c # cs)"
      by (metis list.exhaust)
    from r obtain m where m: "map_of es c = Some m" "reaches m cs"
      by (auto simp: reaches_simps)
    show "p \<in> set (rglob_node d (Dir es))"
    proof (cases cs)
      case Nil
      from m have "(c, m) \<in> set es" by (simp add: map_of_SomeD)
      then have "truediv d c \<in> (\<lambda>e. truediv d (fst e)) ` set es" by force
      then show ?thesis using p Nil by (simp add: truediv_descend)
    next
      case (Cons a as)
      then have "p \<in> set (rglob_entries d es)" using IH m p by blast
      then show ?thesis by simp
    qed
  qed
next
  case (4 d)
  then show ?case by simp
next
  case (5 d e es)
  have wfe: "wf_node (snd e)" and wf: "wf_entries es" "distinct (map fst es)"
    and fresh: "fst e \<notin> fst ` set es"
    using 5 by auto
  note IH1 = "5.IH"(1) [OF wfe] and IH2 = "5.IH"(2) [OF wf]
  have mo: "map_of (e # es) c = (if c = fst e then Some (snd e) else map_of es c)" for c
    by (cases e) auto
  have notin: "map_of es (fst e) = None"
    using fresh by (simp add: map_of_eq_None_iff)
  show ?case
  proof
    assume "p \<in> set (rglob_entries d (e # es))"
    then consider "p \<in> set (rglob_node (truediv d (fst e)) (snd e))" | "p \<in> set (rglob_entries d es)"
      by auto
    then show "\<exists>c m cs. map_of (e # es) c = Some m \<and> cs \<noteq> [] \<and> reaches m cs \<and> p = descend d (c # cs)"
    proof cases
      case 1
      then obtain cs where "cs \<noteq> []" "reaches (snd e) cs" "p = descend d (fst e # cs)"
        using IH1 by (auto simp: descend_truediv)
      then show ?thesis using mo by metis
    next
      case 2
      then obtain c m cs where c: "map_of es c = Some m" "cs \<noteq> []" "reaches m cs" "p = descend d (c # cs)"
        using IH2 by blast
      then have "c \<noteq> fst e" using notin by auto
      then have "map_of (e # es) c = Some m" using c mo by simp
      then show ?thesis using c by blast
    qed
  next
    assume "\<exists>c m cs. map_of (e # es) c = Some m \<and> cs \<noteq> [] \<and> reaches m cs \<and> p = descend d (c # cs)"
    then obtain c m cs where c: "map_of (e # es) c = Some m" "cs \<noteq> []" "reaches m cs" "p = descend d (c # cs)"
      by blast
    show "p \<in> set (rglob_entries d (e # es))"
    proof (cases "c = fst e")
      case True
      then have "m = snd e" using c mo by simp
      then have "p \<in> set (rglob_node (truediv d (fst e)) (snd e))"
        using IH1 c True by (auto simp: descend_truediv)
      then show ?thesis by simp
    next
      case False
      then have "map_of es c = Some m" using c mo by simp
      then have "p \<in> set (rglob_entries d es)" using IH2 c by blast
      then show ?thesis by simp
    qed
  qed
qed

lemma truediv_inj: "truediv d a = truediv d b \<longleftrightarrow> a = b"
  by (simp add: truediv_descend descend_inj)

lemma children_distinct:
  "distinct (map fst es) \<Longrightarrow> distinct (map (\<lambda>e. truediv d (fst e)) es)"
proof -
  assume "distinct (map fst es)"
  then have "distinct (map (truediv d) (map fst es))"
    by (simp add: distinct_map inj_on_def truediv_inj del: map_map)
  then show ?thesis by (simp add: comp_def)
qed

lemma rglob_distinct:
  "wf_node n \<Longrightarrow> distinct (rglob_node d n)"
  "wf_entries es \<Longrightarrow> distinct (map fst es) \<Longrightarrow> distinct (rglob_entries d es)"
proof (induction d n and d es rule: rglob_node_rglob_entries.induct)
  case (1 d)
  show ?case by simp
next
  case (2 d)
  show ?case by simp
next
  case (3 d es)
  have wf: "wf_entries es" "distinct (map fst es)" using 3 by auto
  have "p \<notin> set (rglob_entries d es)" if mem: "p \<in> (\<lambda>e. truediv d (fst e)) ` set es" for p
  proof
    assume "p \<in> set (rglob_entries d es)"
    then obtain c cs where "cs \<noteq> []" "p = descend d (c # cs)"
      using rglob_mem(2) [OF wf] by blast
    moreover obtain a where "p = descend d [a]"
      using mem by (auto simp: truediv_descend)
    ultimately show False by (simp add: descend_inj)
  qed
  then have "set (map (\<lambda>e. truediv d (fst e)) es) \<inter> set (rglob_entries d es) = {}"
    by auto
  then show ?case
    using children_distinct [OF wf(2)] "3.IH" [OF wf] by (simp del: set_map)
next
  case (4 d)
  show ?case by simp
next
  case (5 d e es)
  have wfe: "wf_node (snd e)" and wf: "wf_entries es" "distinct (map fst es)"
    and fresh: "fst e \<notin> fst ` set es"
    using 5 by auto
  have "p \<notin> set (rglob_entries d es)" if mem: "p \<in> set (rglob_node (truediv d (fst e)) (snd e))" for p
  proof
    assume "p \<in> set (rglob_entries d es)"
    then obtain c m cs where c: "map_of es c = Some m" "p = descend d (c # cs)"
      using rglob_mem(2) [OF wf] by blast
    then have "c \<in> fst ` set es"
      by (metis map_of_eq_None_iff option.distinct(1))
    moreover obtain cs' where "p = descend d (fst e # cs')"
      using mem rglob_mem(1) [OF wfe] by (auto simp: descend_truediv)
    ultimately show False using c fresh by (simp add: descend_inj)
  qed
  then have "set (rglob_node (truediv d (fst e)) (snd e)) \<inter> set (rglob_entries d es) = {}"
    by auto
  then show ?case
    using "5.IH"(1) [OF wfe] "5.IH"(2) [OF wf] by simp
qed

lemma wf_entries_all: "wf_entries es \<longleftrightarrow> (\<forall>e\<in>set es. wf_node (snd e))"
  by (induction es) auto

lemma wf_resolve:
  "wf_node n \<Longrightarrow> resolve n cs = Found m \<Longrightarrow> wf_node m"
proof (induction n cs rule: resolve.induct)
  case (4 es c cs)
  from "4.prems"(2) obtain k where k: "map_of es c = Some k" "resolve k cs = Found m"
    by (auto split: option.splits)
  then have "(c, k) \<in> set es" by (simp add: map_of_SomeD)
  then have "wf_node k" using "4.prems"(1) by (auto simp: wf_entries_all)
  then show ?case using "4.IH" k by simp
qed auto

lemma resolve_append:
  "resolve n (cs @ ds) =
     (case resolve n cs of Found m \<Rightarrow> resolve m ds | Absent \<Rightarrow> Absent | Denied \<Rightarrow> Denied)"
  by (induction n cs rule: resolve.induct) (auto split: option.splits)

lemma reaches_append:
  "reaches n (cs @ ds) \<longleftrightarrow> (\<exists>m. resolve n cs = Found m \<and> reaches m ds)"
  by (auto simp: reaches_iff resolve_append split: lookup.splits)

lemma name_truediv: "name (truediv d a) = a"
  by (simp add: name_def truediv_def)

lemma name_descend: "cs \<noteq> [] \<Longrightarrow> name (descend d cs) = last cs"
  by (simp add: name_def descend_def)

lemma lower_char_dot: "lower_char c = CHR ''.'' \<longleftrightarrow> c = CHR ''.''"
  by (auto simp add: lower_char_def split: option.splits if_splits)

lemma rfind_lower: "rfind (CHR ''.'') (lower s) = rfind (CHR ''.'') s"
  by (induction s) (auto simp: lower_def lower_char_dot split: option.splits)

lemma suffix_of_lower: "suffix_of (lower nm) = lower (suffix_of nm)"
  by (simp add: suffix_of_def rfind_lower split: option.splits) (simp add: lower_def drop_map)

lemma lower_char_idem: "lower_char (lower_char c) = lower_char c"
  by (auto simp add: lower_char_def split: option.splits if_splits)

lemma lower_idem: "lower (lower s) = lower s"
  by (simp add: lower_def lower_char_idem)


lemma glob_raises:
  "(\<exists>e. glob_star fs d = Inl e) \<longleftrightarrow> resolve fs (tail d) = Denied"
  "resolve fs (tail d) = Denied \<Longrightarrow> glob_star fs d = Inl (OSError ''[Errno 13] Permission denied'')"
  by (auto simp: glob_star_def split: lookup.splits node.splits)

lemma rglob_raises:
  "(\<exists>e. rglob_star fs d = Inl e) \<longleftrightarrow> resolve fs (tail d) = Denied"
  "resolve fs (tail d) = Denied \<Longrightarrow> rglob_star fs d = Inl (OSError ''[Errno 13] Permission denied'')"
  by (auto simp: rglob_star_def split: lookup.splits)

lemma glob_mem:
  assumes "glob_star fs d = Inr xs"
  shows "p \<in> set xs \<longleftrightarrow> (\<exists>n. reaches fs (tail d @ [n]) \<and> p = truediv d n)"
proof (cases "resolve fs (tail d)")
  case Absent
  then show ?thesis using assms by (auto simp add: glob_star_def reaches_append)
next
  case Denied
  then show ?thesis using assms by (simp add: glob_star_def)
next
  case (Found m)
  show ?thesis
  proof (cases m)
    case File
    then show ?thesis using Found assms by (auto simp add: glob_star_def reaches_append reaches_simps)
  next
    case Locked
    then show ?thesis using Found assms by (auto simp add: glob_star_def reaches_append reaches_simps)
  next
    case (Dir es)
    have "(\<exists>m. map_of es n = Some m) \<longleftrightarrow> n \<in> fst ` set es" for n
      using map_of_eq_None_iff [of es n] by auto
    then have "(\<exists>e\<in>set es. p = truediv d (fst e)) \<longleftrightarrow> (\<exists>n. (\<exists>m. map_of es n = Some m) \<and> p = truediv d n)"
      by auto
    moreover have "xs = map (\<lambda>e. truediv d (fst e)) es"
      using Found Dir assms by (simp add: glob_star_def)
    moreover have "reaches fs (tail d @ [n]) \<longleftrightarrow> (\<exists>m. map_of es n = Some m)" for n
      using Found Dir by (simp add: reaches_append reaches_simps)
    ultimately show ?thesis by (simp add: image_iff)
  qed
qed

lemma rglob_star_mem:
  assumes "wf_node fs" and "rglob_star fs d = Inr ys"
  shows "p \<in> set ys \<longleftrightarrow>
           (\<exists>cs. cs \<noteq> [] \<and> reaches fs (tail d @ cs) \<and> p = descend d cs)"
proof (cases "resolve fs (tail d)")
  case Absent
  then show ?thesis using assms by (auto simp add: rglob_star_def reaches_append)
next
  case Denied
  then show ?thesis using assms by (simp add: rglob_star_def)
next
  case (Found m)
  then have "wf_node m" using assms wf_resolve by blast
  then show ?thesis using Found assms by (auto simp add: rglob_star_def reaches_append rglob_mem(1))
qed

lemma glob_distinct:
  assumes "wf_node fs" and "glob_star fs d = Inr xs"
  shows "distinct xs"
proof (cases "resolve fs (tail d)")
  case Absent
  then show ?thesis using assms by (auto simp add: glob_star_def)
next
  case Denied
  then show ?thesis using assms by (simp add: glob_star_def)
next
  case (Found m)
  then have "wf_node m" using assms wf_resolve by blast
  then show ?thesis using Found assms by (cases m) (auto simp add: glob_star_def children_distinct)
qed

lemma rglob_star_distinct:
  assumes "wf_node fs" and "rglob_star fs d = Inr ys"
  shows "distinct ys"
proof (cases "resolve fs (tail d)")
  case Absent
  then show ?thesis using assms by (auto simp add: rglob_star_def)
next
  case Denied
  then show ?thesis using assms by (simp add: rglob_star_def)
next
  case (Found m)
  then have "wf_node m" using assms wf_resolve by blast
  then show ?thesis using Found assms by (auto simp add: rglob_star_def rglob_distinct(1))
qed

lemma get_video_files_raises:
  "resolve fs (tail rt) = Denied \<Longrightarrow>
     get_video_files fs rt recursive = Inl (OSError ''[Errno 13] Permission denied'')"
  by (simp add: get_video_files_def glob_raises(2) rglob_raises(2))

lemma get_video_files_returns:
  assumes "resolve fs (tail rt) \<noteq> Denied"
  shows "\<exists>found. (if recursive then rglob_star fs rt else glob_star fs rt) = Inr found
           \<and> get_video_files fs rt recursive
                = Inr [f \<leftarrow> found. lower (suffix f) \<in> set video_extensions]"
proof (cases recursive)
  case True
  have "\<not> (\<exists>e. rglob_star fs rt = Inl e)" using assms rglob_raises(1) by blast
  then obtain found where "rglob_star fs rt = Inr found" by (cases "rglob_star fs rt") auto
  then show ?thesis using True by (simp add: get_video_files_def)
next
  case False
  have "\<not> (\<exists>e. glob_star fs rt = Inl e)" using assms glob_raises(1) by blast
  then obtain found where "glob_star fs rt = Inr found" by (cases "glob_star fs rt") auto
  then show ?thesis using False by (simp add: get_video_files_def)
qed

text \<open>
  Claim C3. On every well-formed directory snapshot, discovery without recursion returns
  exactly the paths of the direct entries of the root whose lower-cased suffix is one of
  the six video extensions, so nothing from a subdirectory; discovery with recursion
  returns exactly the paths of the entries at any depth below the root with such a
  suffix, which include the former; neither list holds a path twice; and a name matches
  exactly when its lower-cased form does, so \<^verbatim>\<open>CLIP.MP4\<close> is found as
  \<^verbatim>\<open>clip.mp4\<close> is. Discovery returns these lists unless the status of the root
  cannot be read, in which case both walks raise the error of the operating system.
\<close>

theorem discovery_filter:
  assumes "wf_node fs"
  shows "(resolve fs (tail rt) = Denied \<longrightarrow>
            get_video_files fs rt False = Inl (OSError ''[Errno 13] Permission denied'')
          \<and> get_video_files fs rt True = Inl (OSError ''[Errno 13] Permission denied''))
       \<and> (resolve fs (tail rt) \<noteq> Denied \<longrightarrow>
            (\<exists>xs ys. get_video_files fs rt False = Inr xs
               \<and> get_video_files fs rt True = Inr ys
               \<and> set xs = {truediv rt n | n. reaches fs (tail rt @ [n])
                                \<and> lower (suffix_of n) \<in> set video_extensions}
               \<and> set ys = {descend rt cs | cs. cs \<noteq> [] \<and> reaches fs (tail rt @ cs)
                                  \<and> lower (suffix_of (last cs)) \<in> set video_extensions}
               \<and> set xs \<subseteq> set ys
               \<and> distinct xs
               \<and> distinct ys))
       \<and> (lower (suffix_of (lower nm)) \<in> set video_extensions
            \<longleftrightarrow> lower (suffix_of nm) \<in> set video_extensions)"
proof -
  have e: "lower (suffix_of (lower nm)) = lower (suffix_of nm)"
    by (simp add: suffix_of_lower lower_idem)
  have r: "\<exists>xs ys. get_video_files fs rt False = Inr xs
               \<and> get_video_files fs rt True = Inr ys
               \<and> set xs = {truediv rt n | n. reaches fs (tail rt @ [n])
                                \<and> lower (suffix_of n) \<in> set video_extensions}
               \<and> set ys = {descend rt cs | cs. cs \<noteq> [] \<and> reaches fs (tail rt @ cs)
                                  \<and> lower (suffix_of (last cs)) \<in> set video_extensions}
               \<and> set xs \<subseteq> set ys
               \<and> distinct xs
               \<and> distinct ys"
    if ok: "resolve fs (tail rt) \<noteq> Denied"
  proof -
    obtain gs where gs: "glob_star fs rt = Inr gs"
      and x: "get_video_files fs rt False = Inr [f \<leftarrow> gs. lower (suffix f) \<in> set video_extensions]"
      using get_video_files_returns [OF ok, of False] by auto
    obtain rs where rs: "rglob_star fs rt = Inr rs"
      and y: "get_video_files fs rt True = Inr [f \<leftarrow> rs. lower (suffix f) \<in> set video_extensions]"
      using get_video_files_returns [OF ok, of True] by auto
    let ?xs = "[f \<leftarrow> gs. lower (suffix f) \<in> set video_extensions]"
    let ?ys = "[f \<leftarrow> rs. lower (suffix f) \<in> set video_extensions]"
    have a: "set ?xs = {truediv rt n | n. reaches fs (tail rt @ [n])
                                \<and> lower (suffix_of n) \<in> set video_extensions}"
      by (auto simp: glob_mem [OF gs] suffix_def name_truediv)
    have b: "set ?ys = {descend rt cs | cs. cs \<noteq> [] \<and> reaches fs (tail rt @ cs)
                                  \<and> lower (suffix_of (last cs)) \<in> set video_extensions}"
      by (auto simp: rglob_star_mem [OF assms rs] suffix_def name_descend)
    have c: "set ?xs \<subseteq> set ?ys"
    proof
      fix p assume "p \<in> set ?xs"
      then obtain n where "reaches fs (tail rt @ [n])" "lower (suffix_of n) \<in> set video_extensions"
        "p = truediv rt n" unfolding a by blast
      then have "[n] \<noteq> [] \<and> reaches fs (tail rt @ [n])
          \<and> lower (suffix_of (last [n])) \<in> set video_extensions \<and> p = descend rt [n]"
        by (simp add: truediv_descend)
      then show "p \<in> set ?ys" unfolding b by blast
    qed
    have d: "distinct ?xs" "distinct ?ys"
      using glob_distinct [OF assms gs] rglob_star_distinct [OF assms rs] by simp_all
    show ?thesis
      using x y a b c d by blast
  qed
  show ?thesis
    using e r get_video_files_raises [of fs rt] by simp
qed

theorem discovery_filter_witness:
  "wf_node example_fs
   \<and> resolve example_fs (tail videos) \<noteq> Denied
   \<and> get_video_files example_fs videos False
       = Inr [clip ''a.mp4'', clip ''CLIP.MP4'', clip ''b.mkv'']
   \<and> (\<exists>ys. get_video_files example_fs videos True = Inr ys
         \<and> set [clip ''a.mp4'', clip ''CLIP.MP4'', clip ''b.mkv''] \<subseteq> set ys
         \<and> distinct ys)
   \<and> resolve example_fs (tail behind_locked) = Denied
   \<and> get_video_files example_fs behind_locked True
       = Inl (OSError ''[Errno 13] Permission denied'')"
proof -
  have w: "wf_node example_fs"
    by (simp add: example_fs_def)
  have n: "resolve example_fs (tail videos) \<noteq> Denied"
    by (simp add: example_fs_def videos_def)
  have g: "get_video_files example_fs videos False = Inr [clip ''a.mp4'', clip ''CLIP.MP4'', clip ''b.mkv'']"
    by (simp add: example_fs_def videos_def clip_def get_video_files_def glob_star_def truediv_def suffix_def name_def suffix_of_def lower_def lower_char_def video_extensions_def)
  have x: "resolve example_fs (tail behind_locked) = Denied"
    by (simp add: example_fs_def behind_locked_def)
  from discovery_filter [OF w, of videos "''CLIP.MP4''"] n g
  have a: "\<exists>ys. get_video_files example_fs videos True = Inr ys
         \<and> set [clip ''a.mp4'', clip ''CLIP.MP4'', clip ''b.mkv''] \<subseteq> set ys
         \<and> distinct ys"
    by auto
  from discovery_filter [OF w, of behind_locked "''CLIP.MP4''"] x
  have b: "get_video_files example_fs behind_locked True
       = Inl (OSError ''[Errno 13] Permission denied'')"
    by blast
  show ?thesis using w n g x a b by blast
qed

section \<open>The duration probe\<close>

lemma cmds_differ: "probe_cmd p \<noteq> fallback_cmd p"
  by (simp add: probe_cmd_def fallback_cmd_def)

lemma run_and_parse_primary:
  assumes "(\<exists>rc out1. run w (probe_cmd p) = Completed rc out1 \<and> py_float (strip out1) = None)
         \<or> (\<exists>e. run w (probe_cmd p) = Raised e \<and> caught_by_probe e)"
  shows "\<exists>e. run_and_parse w (probe_cmd p) = Inl e \<and> caught_by_probe e"
  using assms by (auto simp: run_and_parse_def)

lemma gvd_fallback_trace:
  assumes "run_and_parse w (probe_cmd p) = Inl e" and "caught_by_probe e"
  shows "snd (get_video_duration w p) = [Run (probe_cmd p), Run (fallback_cmd p)]"
  using assms
  by (simp add: get_video_duration_def split: run_result.split option.split)

lemma gvd_fallback_completed:
  assumes "run_and_parse w (probe_cmd p) = Inl e" and "caught_by_probe e"
    and "run w (fallback_cmd p) = Completed rc2 out2"
  shows "fst (get_video_duration w p)
           = Inr (case py_float (strip out2) of Some d \<Rightarrow> d | None \<Rightarrow> Finite 0)"
  using assms by (simp add: get_video_duration_def split: option.split)

lemma gvd_fallback_raised:
  assumes "run_and_parse w (probe_cmd p) = Inl e" and "caught_by_probe e"
    and "run w (fallback_cmd p) = Raised e'"
  shows "fst (get_video_duration w p) = Inl e'"
  using assms by (simp add: get_video_duration_def)

lemma gvd_primary_raised:
  assumes "run w (probe_cmd p) = Raised e" and "\<not> caught_by_probe e"
  shows "get_video_duration w p = (Inl e, [Run (probe_cmd p)])"
  using assms by (simp add: get_video_duration_def run_and_parse_def)

lemma gvd_completed:
  assumes "run w (probe_cmd p) = Completed rc1 out1"
    and "run w (fallback_cmd p) = Completed rc2 out2"
  shows "\<exists>d. fst (get_video_duration w p) = Inr d"
  using assms
  by (auto simp add: get_video_duration_def run_and_parse_def split: option.split)

text \<open>
  Claim C1, as stated, fails: when the engine binary cannot be started,
  \<^verbatim>\<open>subprocess.run\<close> of the primary probe raises an \<^verbatim>\<open>OSError\<close>, which the clause
  \<^verbatim>\<open>except (ValueError, subprocess.SubprocessError)\<close> does not catch:
  get_video_duration raises it, and the fallback probe is not invoked.
\<close>

theorem duration_raises:
  "get_video_duration no_engine (clip ''a.mp4'')
     = (Inl (OSError ''[Errno 2] No such file or directory''), [Run (probe_cmd (clip ''a.mp4''))])
   \<and> count_list (snd (get_video_duration no_engine (clip ''a.mp4'')))
        (Run (fallback_cmd (clip ''a.mp4''))) = 0"
proof -
  have "get_video_duration no_engine (clip ''a.mp4'')
     = (Inl (OSError ''[Errno 2] No such file or directory''), [Run (probe_cmd (clip ''a.mp4''))])"
    by (simp add: get_video_duration_def run_and_parse_def no_engine_def)
  then show ?thesis using cmds_differ [of "clip ''a.mp4''"] by simp
qed

text \<open>
  Claim C1, amended. If the primary probe completes with an output that \<^verbatim>\<open>float\<close>
  rejects, or running it raises what the clause
  \<^verbatim>\<open>except (ValueError, subprocess.SubprocessError)\<close> catches, then
  get_video_duration runs the primary command, then the fallback command, once each; when
  the fallback run completes, it returns the float read from the fallback output, or 0.0
  when that output is rejected too; when the fallback run raises, that error leaves the
  function. For every pair of outputs of two probe runs that complete it returns a float
  and raises nothing. An error of the primary run that the clause does not catch leaves
  the function, and the fallback is not run.
\<close>

theorem duration_fallback:
  "((\<exists>rc1 out1. run w (probe_cmd p) = Completed rc1 out1 \<and> py_float (strip out1) = None)
      \<or> (\<exists>e. run w (probe_cmd p) = Raised e \<and> caught_by_probe e)
     \<longrightarrow> snd (get_video_duration w p) = [Run (probe_cmd p), Run (fallback_cmd p)]
        \<and> count_list (snd (get_video_duration w p)) (Run (fallback_cmd p)) = 1
        \<and> (\<forall>rc2 out2. run w (fallback_cmd p) = Completed rc2 out2 \<longrightarrow>
              fst (get_video_duration w p)
                = Inr (case py_float (strip out2) of Some d \<Rightarrow> d | None \<Rightarrow> Finite 0))
        \<and> (\<forall>e'. run w (fallback_cmd p) = Raised e' \<longrightarrow>
              fst (get_video_duration w p) = Inl e'))
   \<and> ((\<exists>rc1 out1 rc2 out2. run w (probe_cmd p) = Completed rc1 out1
          \<and> run w (fallback_cmd p) = Completed rc2 out2)
        \<longrightarrow> (\<exists>d. fst (get_video_duration w p) = Inr d))
   \<and> (\<forall>e. run w (probe_cmd p) = Raised e \<and> \<not> caught_by_probe e \<longrightarrow>
          get_video_duration w p = (Inl e, [Run (probe_cmd p)]))"
proof (intro conjI impI allI)
  assume a: "(\<exists>rc1 out1. run w (probe_cmd p) = Completed rc1 out1 \<and> py_float (strip out1) = None)
           \<or> (\<exists>e. run w (probe_cmd p) = Raised e \<and> caught_by_probe e)"
  then obtain e where e: "run_and_parse w (probe_cmd p) = Inl e" "caught_by_probe e"
    using run_and_parse_primary by blast
  show t: "snd (get_video_duration w p) = [Run (probe_cmd p), Run (fallback_cmd p)]"
    using gvd_fallback_trace [OF e] .
  show "count_list (snd (get_video_duration w p)) (Run (fallback_cmd p)) = 1"
    unfolding t using cmds_differ [of p] by simp
  show "fst (get_video_duration w p)
          = Inr (case py_float (strip out2) of Some d \<Rightarrow> d | None \<Rightarrow> Finite 0)"
    if "run w (fallback_cmd p) = Completed rc2 out2" for rc2 out2
    using gvd_fallback_completed [OF e that] .
  show "fst (get_video_duration w p) = Inl e'"
    if "run w (fallback_cmd p) = Raised e'" for e'
    using gvd_fallback_raised [OF e that] .
next
  assume "\<exists>rc1 out1 rc2 out2. run w (probe_cmd p) = Completed rc1 out1
          \<and> run w (fallback_cmd p) = Completed rc2 out2"
  then show "\<exists>d. fst (get_video_duration w p) = Inr d"
    using gvd_completed by blast
next
  fix e assume "run w (probe_cmd p) = Raised e \<and> \<not> caught_by_probe e"
  then show "get_video_duration w p = (Inl e, [Run (probe_cmd p)])"
    using gvd_primary_raised by blast
qed

theorem duration_fallback_witness:
  "get_video_duration (example_world ''N/A'' ''12.5'' no_child) (clip ''a.mp4'')
     = (Inr (Finite 12.5), [Run (probe_cmd (clip ''a.mp4'')), Run (fallback_cmd (clip ''a.mp4''))])
   \<and> get_video_duration (example_world [] ''N/A'' no_child) (clip ''a.mp4'')
     = (Inr (Finite 0), [Run (probe_cmd (clip ''a.mp4'')), Run (fallback_cmd (clip ''a.mp4''))])
   \<and> run no_engine (probe_cmd (clip ''a.mp4'')) = Raised (OSError ''[Errno 2] No such file or directory'')
   \<and> \<not> caught_by_probe (OSError ''[Errno 2] No such file or directory'')
   \<and> fst (get_video_duration no_engine (clip ''a.mp4''))
        = Inl (OSError ''[Errno 2] No such file or directory'')"
proof -
  let ?w = "example_world ''N/A'' ''12.5'' no_child"
  let ?v = "example_world [] ''N/A'' no_child"
  let ?p = "clip ''a.mp4''"
  have p1: "run ?w (probe_cmd ?p) = Completed 0 ''N/A''" "py_float (strip ''N/A'') = None"
    and f1: "run ?w (fallback_cmd ?p) = Completed 0 ''12.5''" "py_float (strip ''12.5'') = Some (Finite 12.5)"
    by (simp_all add: example_world_def probe_cmd_def fallback_cmd_def FFMPEG_PATH_def path_str_def clip_def sep_def py_float_def strip_def is_space_def lower_def lower_char_def is_digit_def parse_decimal_def digits_value_def)
  have p2: "run ?v (probe_cmd ?p) = Completed 0 []" "py_float (strip []) = None"
    and f2: "run ?v (fallback_cmd ?p) = Completed 0 ''N/A''"
    by (simp_all add: example_world_def probe_cmd_def fallback_cmd_def FFMPEG_PATH_def path_str_def clip_def sep_def py_float_def strip_def is_space_def lower_def lower_char_def is_digit_def parse_decimal_def digits_value_def)
  have p3: "run no_engine (probe_cmd ?p) = Raised (OSError ''[Errno 2] No such file or directory'')"
    "\<not> caught_by_probe (OSError ''[Errno 2] No such file or directory'')"
    by (simp_all add: no_engine_def)
  have a: "get_video_duration ?w ?p = (Inr (Finite 12.5), [Run (probe_cmd ?p), Run (fallback_cmd ?p)])"
    using duration_fallback [of ?w ?p] p1 f1 by (simp add: prod_eq_iff)
  have b: "get_video_duration ?v ?p = (Inr (Finite 0), [Run (probe_cmd ?p), Run (fallback_cmd ?p)])"
    using duration_fallback [of ?v ?p] p2 f2 p1(2) by (simp add: prod_eq_iff)
  have c: "fst (get_video_duration no_engine ?p) = Inl (OSError ''[Errno 2] No such file or directory'')"
    using duration_fallback [of no_engine ?p] p3 by simp
  show ?thesis using a b c p3 by simp
qed

text \<open>
  Claim C8, as stated, fails: when the primary probe prints \<^verbatim>\<open>-1\<close> the duration
  returned is \<^verbatim>\<open>-1.0\<close>, which is negative.
\<close>

theorem duration_negative:
  "fst (get_video_duration (example_world ''-1'' [] no_child) (clip ''a.mp4'')) = Inr (Finite (- 1))
   \<and> \<not> non_negative (Finite (- 1))"
  by (simp add: get_video_duration_def run_and_parse_def example_world_def probe_cmd_def py_float_def strip_def is_space_def lower_def lower_char_def is_digit_def parse_decimal_def digits_value_def)

text \<open>
  Claim C8, amended. For every input file and every pair of probe outputs, the duration
  returned is the float read from the primary output when \<^verbatim>\<open>float\<close> accepts it,
  otherwise the float read from the fallback output when \<^verbatim>\<open>float\<close> accepts that,
  otherwise 0.0; the sign is not checked, and the duration is non-negative whenever each
  output that \<^verbatim>\<open>float\<close> accepts reads as a non-negative float.
\<close>

theorem duration_value:
  assumes "run w (probe_cmd p) = Completed rc1 out1"
    and "run w (fallback_cmd p) = Completed rc2 out2"
  shows "fst (get_video_duration w p) =
           Inr (case py_float (strip out1) of
                  Some d \<Rightarrow> d
                | None \<Rightarrow> (case py_float (strip out2) of Some d \<Rightarrow> d | None \<Rightarrow> Finite 0))
       \<and> ((\<forall>d. py_float (strip out1) = Some d \<longrightarrow> non_negative d)
            \<and> (\<forall>d. py_float (strip out2) = Some d \<longrightarrow> non_negative d)
          \<longrightarrow> (\<exists>d. fst (get_video_duration w p) = Inr d \<and> non_negative d))"
  using assms
  by (auto simp add: get_video_duration_def run_and_parse_def split: option.split)

theorem duration_value_witness:
  "fst (get_video_duration (example_world ''N/A'' ''12.5'' no_child) (clip ''a.mp4'')) = Inr (Finite 12.5)
   \<and> (\<exists>d. fst (get_video_duration (example_world ''N/A'' ''12.5'' no_child) (clip ''a.mp4'')) = Inr d
          \<and> non_negative d)"
proof -
  let ?w = "example_world ''N/A'' ''12.5'' no_child"
  have p1: "run ?w (probe_cmd (clip ''a.mp4'')) = Completed 0 ''N/A''" "py_float (strip ''N/A'') = None"
    and f1: "run ?w (fallback_cmd (clip ''a.mp4'')) = Completed 0 ''12.5''" "py_float (strip ''12.5'') = Some (Finite 12.5)"
    by (simp_all add: example_world_def probe_cmd_def fallback_cmd_def FFMPEG_PATH_def path_str_def clip_def sep_def py_float_def strip_def is_space_def lower_def lower_char_def is_digit_def parse_decimal_def digits_value_def)
  show ?thesis
    using duration_value [OF p1(1) f1(1)] p1(2) f1(2) by simp
qed

section \<open>Computations: sequencing, handlers, effects\<close>

lemma and_then_None [simp]: "and_then None f = None"
  by (simp add: and_then_def)

lemma and_then_Inl [simp]: "and_then (Some (Inl e, tr)) f = Some (Inl e, tr)"
  by (simp add: and_then_def)

lemma and_then_Inr [simp]:
  "and_then (Some (Inr x, tr)) f = (case f x of None \<Rightarrow> None | Some (r, tr') \<Rightarrow> Some (r, tr @ tr'))"
  by (simp add: and_then_def)

lemma try_except_None [simp]: "try_except None h = None"
  by (simp add: try_except_def)

lemma try_except_Inr [simp]: "try_except (Some (Inr x, tr)) h = Some (Inr x, tr)"
  by (simp add: try_except_def)

lemma try_except_Inl [simp]:
  "try_except (Some (Inl e, tr)) h = (case h e of None \<Rightarrow> None | Some (r, tr') \<Rightarrow> Some (r, tr @ tr'))"
  by (simp add: try_except_def)

lemma py_print_ok: "sys_stdout w m = None \<Longrightarrow> py_print w m = Some (Inr (), [Print m])"
  by (simp add: py_print_def)

lemma py_print_raises: "sys_stdout w m = Some e \<Longrightarrow> py_print w m = Some (Inl e, [PrintRaised m])"
  by (simp add: py_print_def)

lemma and_then_cases:
  assumes "and_then m f = Some (r, tr)"
  obtains (raised) e where "m = Some (Inl e, tr)" "r = Inl e"
        | (passed) x t1 t2 where "m = Some (Inr x, t1)" "f x = Some (r, t2)" "tr = t1 @ t2"
proof (cases m)
  case None
  then show ?thesis using assms by simp
next
  case (Some a)
  obtain s t where a: "a = (s, t)" by (cases a)
  show ?thesis
  proof (cases s)
    case (Inl e)
    then have "m = Some (Inl e, tr)" "r = Inl e" using Some a assms by simp_all
    then show ?thesis by (rule raised)
  next
    case (Inr x)
    show ?thesis
    proof (cases "f x")
      case None
      then show ?thesis using Some a Inr assms by simp
    next
      case fx: (Some b)
      obtain r' t' where b: "b = (r', t')" by (cases b)
      have "m = Some (Inr x, t)" "f x = Some (r, t')" "tr = t @ t'"
        using Some a Inr fx b assms by simp_all
      then show ?thesis by (rule passed)
    qed
  qed
qed

lemma try_except_cases:
  assumes "try_except m h = Some (r, tr)"
  obtains (returned) x where "m = Some (Inr x, tr)" "r = Inr x"
        | (handled) e t1 t2 where "m = Some (Inl e, t1)" "h e = Some (r, t2)" "tr = t1 @ t2"
proof (cases m)
  case None
  then show ?thesis using assms by simp
next
  case (Some a)
  obtain s t where a: "a = (s, t)" by (cases a)
  show ?thesis
  proof (cases s)
    case (Inr x)
    then have "m = Some (Inr x, tr)" "r = Inr x" using Some a assms by simp_all
    then show ?thesis by (rule returned)
  next
    case (Inl e)
    show ?thesis
    proof (cases "h e")
      case None
      then show ?thesis using Some a Inl assms by simp
    next
      case he: (Some b)
      obtain r' t' where b: "b = (r', t')" by (cases b)
      have "m = Some (Inl e, t)" "h e = Some (r, t')" "tr = t @ t'"
        using Some a Inl he b assms by simp_all
      then show ?thesis by (rule handled)
    qed
  qed
qed

text \<open>Every effect of a computation has a property.\<close>

lemma only_Some: "(\<And>e. e \<in> set tr \<Longrightarrow> P e) \<Longrightarrow> only P (Some (r, tr))"
  by (simp add: only_def)

lemma only_None: "only P None"
  by (simp add: only_def)

lemma only_raise: "only P (raise e)"
  by (simp add: only_def raise_def)

lemma only_print: "P (Print m) \<Longrightarrow> P (PrintRaised m) \<Longrightarrow> only P (py_print w m)"
  by (auto simp add: only_def py_print_def split: option.splits)

lemma only_Popen: "P (Spawn cmd) \<Longrightarrow> only P (Popen w cmd)"
  by (auto simp add: only_def Popen_def split: sum.splits)

lemma only_and_then:
  assumes "only P m" and "\<And>x. only P (f x)"
  shows "only P (and_then m f)"
  unfolding only_def
proof (intro allI impI)
  fix r tr assume "and_then m f = Some (r, tr)"
  then show "\<forall>e\<in>set tr. P e"
  proof (cases rule: and_then_cases)
    case (raised e)
    then show ?thesis using assms(1) by (simp add: only_def)
  next
    case (passed x t1 t2)
    then show ?thesis using assms(1) assms(2) [of x] by (auto simp add: only_def)
  qed
qed

lemma only_try_except:
  assumes "only P m" and "\<And>e. only P (h e)"
  shows "only P (try_except m h)"
  unfolding only_def
proof (intro allI impI)
  fix r tr assume "try_except m h = Some (r, tr)"
  then show "\<forall>e\<in>set tr. P e"
  proof (cases rule: try_except_cases)
    case (returned x)
    then show ?thesis using assms(1) by (simp add: only_def)
  next
    case (handled e t1 t2)
    then show ?thesis using assms(1) assms(2) [of e] by (auto simp add: only_def)
  qed
qed

text \<open>A computation returns or raises.\<close>

lemma returns_Some [simp]: "returns (Some x)"
  by (simp add: returns_def)

lemma returnsE: "returns m \<Longrightarrow> (\<And>r tr. m = Some (r, tr) \<Longrightarrow> thesis) \<Longrightarrow> thesis"
  by (cases m) (auto simp add: returns_def)

lemma and_then_returns:
  assumes "returns m" and "\<And>x. returns (f x)"
  shows "returns (and_then m f)"
proof -
  from assms(1) obtain r tr where m: "m = Some (r, tr)" by (rule returnsE)
  show ?thesis
  proof (cases r)
    case (Inl e)
    then show ?thesis using m by simp
  next
    case (Inr x)
    from assms(2) [of x] obtain r' tr' where "f x = Some (r', tr')" by (rule returnsE)
    then show ?thesis using m Inr by simp
  qed
qed

lemma try_except_returns:
  assumes "returns m" and "\<And>e. returns (h e)"
  shows "returns (try_except m h)"
proof -
  from assms(1) obtain r tr where m: "m = Some (r, tr)" by (rule returnsE)
  show ?thesis
  proof (cases r)
    case (Inr x)
    then show ?thesis using m by simp
  next
    case (Inl e)
    from assms(2) [of e] obtain r' tr' where "h e = Some (r', tr')" by (rule returnsE)
    then show ?thesis using m Inl by simp
  qed
qed

lemma py_print_returns: "returns (py_print w m)"
  by (simp add: py_print_def split: option.splits)

lemma Popen_returns: "returns (Popen w cmd)"
  by (simp add: Popen_def split: sum.splits)

lemma raise_returns: "returns (raise e)"
  by (simp add: raise_def)

section \<open>The monitoring loop\<close>

lemma monitor_returns:
  assumes "process k = Terminated returncode rest" and "i \<le> k"
  shows "returns (monitor w process i shown)"
  using assms
proof (induction "k - i" arbitrary: i shown)
  case 0
  then have "i = k" by simp
  then show ?case using "0.prems"(1) by (subst monitor.simps) simp
next
  case (Suc d)
  then have lt: "i < k" by simp
  have IH: "returns (monitor w process (Suc i) s)" for s
    using Suc.hyps(1) [of "Suc i" s] Suc.hyps(2) Suc.prems(1) lt by simp
  show ?case
    by (subst monitor.simps) (simp add: IH split: step.split sum.split option.split)
qed

lemma monitor_terminates:
  assumes "terminates process"
  shows "returns (monitor w process 0 shown)"
  using assms monitor_returns [of process _ _ _ 0] by (auto simp add: terminates_def)


text \<open>
  What the loop leaves when it is left: the progress lines it printed, and then either the
  end of the child, or the exception of a read or of a print, with the child alive.
\<close>

lemma progress_Nil [simp]: "progress []"
  by (simp add: progress_def)

lemma progress_Cons [simp]: "progress (Print (ProgressLine s) # shown) = progress shown"
  by (simp add: progress_def)

lemma monitor_shape:
  assumes "monitor w process i shown = Some res"
  shows "\<exists>shown'. progress shown'
           \<and> ((\<exists>k returncode rest. i \<le> k \<and> process k = Terminated returncode rest
                  \<and> res = (Inr (returncode, rest), shown @ shown' @ [Exit returncode]))
              \<or> (\<exists>e. res = (Inl e, shown @ shown'))
              \<or> (\<exists>e s. res = (Inl e, shown @ shown' @ [PrintRaised (ProgressLine s)])))"
proof (rule monitor.raw_induct [where P = "\<lambda>w (process :: nat \<Rightarrow> step) (i :: nat) shown res.
          \<exists>shown'. progress shown'
           \<and> ((\<exists>k returncode rest. i \<le> k \<and> process k = Terminated returncode rest
                  \<and> res = (Inr (returncode, rest), shown @ shown' @ [Exit returncode]))
              \<or> (\<exists>e. res = (Inl e, shown @ shown'))
              \<or> (\<exists>e s. res = (Inl e, shown @ shown' @ [PrintRaised (ProgressLine s)])))", OF _ assms])
  fix mon :: "world \<Rightarrow> (nat \<Rightarrow> step) \<Rightarrow> nat \<Rightarrow> effect list \<Rightarrow> (int \<times> (py_exception + string)) comp"
    and w process i shown res
  assume IH: "\<And>w p k s y. mon w p k s = Some y \<Longrightarrow>
                \<exists>shown'. progress shown'
           \<and> ((\<exists>j returncode rest. k \<le> j \<and> p j = Terminated returncode rest
                  \<and> y = (Inr (returncode, rest), s @ shown' @ [Exit returncode]))
              \<or> (\<exists>e. y = (Inl e, s @ shown'))
              \<or> (\<exists>e t. y = (Inl e, s @ shown' @ [PrintRaised (ProgressLine t)])))"
    and eq: "(case process i of
        Terminated returncode rest \<Rightarrow> Some (Inr (returncode, rest), shown @ [Exit returncode])
      | Running readline \<Rightarrow>
         (case readline of
            Inl e \<Rightarrow> Some (Inl e, shown)
          | Inr line \<Rightarrow>
             if line \<noteq> [] \<and> (contains ''frame='' line \<or> contains ''time='' line)
             then (case sys_stdout w (ProgressLine (strip line)) of
                     Some e \<Rightarrow> Some (Inl e, shown @ [PrintRaised (ProgressLine (strip line))])
                   | None \<Rightarrow>
                       mon w process (Suc i) (shown @ [Print (ProgressLine (strip line))]))
             else mon w process (Suc i) shown)) = Some res"
  let ?goal = "\<exists>shown'. progress shown'
           \<and> ((\<exists>k returncode rest. i \<le> k \<and> process k = Terminated returncode rest
                  \<and> res = (Inr (returncode, rest), shown @ shown' @ [Exit returncode]))
              \<or> (\<exists>e. res = (Inl e, shown @ shown'))
              \<or> (\<exists>e s. res = (Inl e, shown @ shown' @ [PrintRaised (ProgressLine s)])))"
  have step: ?goal if rec: "mon w process (Suc i) (shown @ pr) = Some res" and pr: "progress pr" for pr
  proof -
    from IH [OF rec] obtain shown' where sh: "progress shown'"
      and c: "(\<exists>j returncode rest. Suc i \<le> j \<and> process j = Terminated returncode rest
                  \<and> res = (Inr (returncode, rest), (shown @ pr) @ shown' @ [Exit returncode]))
              \<or> (\<exists>e. res = (Inl e, (shown @ pr) @ shown'))
              \<or> (\<exists>e t. res = (Inl e, (shown @ pr) @ shown' @ [PrintRaised (ProgressLine t)]))"
      by blast
    have p: "progress (pr @ shown')" using pr sh by (auto simp add: progress_def)
    from c have "(\<exists>k returncode rest. i \<le> k \<and> process k = Terminated returncode rest
                  \<and> res = (Inr (returncode, rest), shown @ (pr @ shown') @ [Exit returncode]))
              \<or> (\<exists>e. res = (Inl e, shown @ (pr @ shown')))
              \<or> (\<exists>e s. res = (Inl e, shown @ (pr @ shown') @ [PrintRaised (ProgressLine s)]))"
      by (auto intro: Suc_leD)
    with p show ?thesis by blast
  qed
  show ?goal
  proof (cases "process i")
    case (Terminated returncode rest)
    then have "res = (Inr (returncode, rest), shown @ [] @ [Exit returncode])" using eq by simp
    then have "progress [] \<and> ((\<exists>k returncode rest. i \<le> k \<and> process k = Terminated returncode rest
                  \<and> res = (Inr (returncode, rest), shown @ [] @ [Exit returncode]))
              \<or> (\<exists>e. res = (Inl e, shown @ []))
              \<or> (\<exists>e s. res = (Inl e, shown @ [] @ [PrintRaised (ProgressLine s)])))"
      using Terminated progress_Nil by blast
    then show ?thesis by (rule exI [of _ "[]"])
  next
    case (Running readline)
    show ?thesis
    proof (cases readline)
      case (Inl e)
      then have "res = (Inl e, shown @ [])" using eq Running by simp
      then have "progress [] \<and> ((\<exists>k returncode rest. i \<le> k \<and> process k = Terminated returncode rest
                  \<and> res = (Inr (returncode, rest), shown @ [] @ [Exit returncode]))
              \<or> (\<exists>e. res = (Inl e, shown @ []))
              \<or> (\<exists>e s. res = (Inl e, shown @ [] @ [PrintRaised (ProgressLine s)])))"
        using progress_Nil by blast
      then show ?thesis by (rule exI [of _ "[]"])
    next
      case (Inr line)
      show ?thesis
      proof (cases "line \<noteq> [] \<and> (contains ''frame='' line \<or> contains ''time='' line)")
        case False
        then have "mon w process (Suc i) (shown @ []) = Some res"
          using eq Running Inr by auto
        then show ?thesis by (rule step) simp
      next
        case True
        show ?thesis
        proof (cases "sys_stdout w (ProgressLine (strip line))")
          case None
          then have "mon w process (Suc i) (shown @ [Print (ProgressLine (strip line))]) = Some res"
            using eq Running Inr True by simp
          then show ?thesis by (rule step) simp
        next
          case (Some e)
          then have "res = (Inl e, shown @ [] @ [PrintRaised (ProgressLine (strip line))])"
            using eq Running Inr True by simp
          then have "progress [] \<and> ((\<exists>k returncode rest. i \<le> k \<and> process k = Terminated returncode rest
                  \<and> res = (Inr (returncode, rest), shown @ [] @ [Exit returncode]))
              \<or> (\<exists>e. res = (Inl e, shown @ []))
              \<or> (\<exists>e s. res = (Inl e, shown @ [] @ [PrintRaised (ProgressLine s)])))"
            using progress_Nil by blast
          then show ?thesis by (rule exI [of _ "[]"])
        qed
      qed
    qed
  qed
qed

lemma monitor_exits:
  assumes "process k = Terminated returncode rest"
    and "\<forall>j. i \<le> j \<and> j < k \<longrightarrow> readable w (process j)"
    and "i \<le> k"
  shows "\<exists>shown'. monitor w process i shown
                    = Some (Inr (returncode, rest), shown @ shown' @ [Exit returncode])
           \<and> progress shown'"
  using assms
proof (induction "k - i" arbitrary: i shown)
  case 0
  then have "i = k" by simp
  then have "monitor w process i shown = Some (Inr (returncode, rest), shown @ [] @ [Exit returncode])"
    using "0.prems"(1) by (subst monitor.simps) simp
  then show ?case using progress_Nil by blast
next
  case (Suc d)
  then have lt: "i < k" by simp
  then have "readable w (process i)" using Suc.prems(2) by simp
  then obtain line where line: "process i = Running (Inr line)"
    and pr: "line \<noteq> [] \<and> (contains ''frame='' line \<or> contains ''time='' line)
               \<longrightarrow> sys_stdout w (ProgressLine (strip line)) = None"
    by (auto simp add: readable_def split: step.splits sum.splits)
  let ?pr = "if line \<noteq> [] \<and> (contains ''frame='' line \<or> contains ''time='' line)
            then [Print (ProgressLine (strip line))] else []"
  have "d = k - Suc i" using Suc.hyps(2) by simp
  moreover have "\<forall>j. Suc i \<le> j \<and> j < k \<longrightarrow> readable w (process j)"
    using Suc.prems(2) by auto
  ultimately obtain shown' where s: "monitor w process (Suc i) (shown @ ?pr)
        = Some (Inr (returncode, rest), (shown @ ?pr) @ shown' @ [Exit returncode])"
      "progress shown'"
    using Suc.hyps(1) [of "Suc i" "shown @ ?pr"] Suc.prems(1) lt by auto
  have m: "monitor w process i shown = monitor w process (Suc i) (shown @ ?pr)"
    using line pr by (subst monitor.simps) auto
  have "monitor w process i shown
          = Some (Inr (returncode, rest), shown @ (?pr @ shown') @ [Exit returncode])"
    using m s(1) by simp
  moreover have "progress (?pr @ shown')" using s(2) by (auto simp add: progress_def)
  ultimately show ?case by blast
qed

lemma progress_only:
  assumes "progress shown"
  shows "attempted shown = []" "failures shown = []"
    "sequential alive (shown @ ys) = sequential alive ys"
    "GetSize q \<notin> set shown" "Spawn c \<notin> set shown" "Run c \<notin> set shown" "Exit rc \<notin> set shown"
  using assms by (induction shown) (auto simp add: progress_def)


section \<open>The effects of process_video\<close>

lemma attempted_append: "attempted (xs @ ys) = attempted xs @ attempted ys"
  by (induction xs rule: attempted.induct) auto

lemma failures_append: "failures (xs @ ys) = failures xs @ failures ys"
  by (induction xs rule: failures.induct) auto

lemma gvd_trace:
  "snd (get_video_duration w p) = [Run (probe_cmd p)]
   \<or> snd (get_video_duration w p) = [Run (probe_cmd p), Run (fallback_cmd p)]"
  by (auto simp: get_video_duration_def split: sum.splits run_result.splits option.splits)

lemma output_path_neq: "output_path p \<noteq> p"
proof
  assume "output_path p = p"
  then have "tail (output_path p) = tail p" by simp
  then show False
    by (cases "tail p" rule: rev_cases) (simp_all add: output_path_def truediv_def parent_def name_def)
qed

lemma only_D: "m = Some (r, tr) \<Longrightarrow> only P m \<Longrightarrow> \<forall>e\<in>set tr. P e"
  by (simp add: only_def)

lemma only_gvd:
  assumes "P (Run (probe_cmd p))" and "P (Run (fallback_cmd p))"
  shows "only P (Some (get_video_duration w p))"
proof -
  obtain r tr where g: "get_video_duration w p = (r, tr)" by (cases "get_video_duration w p")
  then have "tr = [Run (probe_cmd p)] \<or> tr = [Run (probe_cmd p), Run (fallback_cmd p)]"
    using gvd_trace [of w p] by simp
  then show ?thesis using assms g by (auto simp add: only_def)
qed

lemma only_monitor:
  assumes "\<And>s. P (Print (ProgressLine s))" and "\<And>s. P (PrintRaised (ProgressLine s))"
    and "\<And>returncode. P (Exit returncode)" and "\<forall>e\<in>set shown. P e"
  shows "only P (monitor w process i shown)"
  unfolding only_def
proof (intro allI impI)
  fix r tr assume "monitor w process i shown = Some (r, tr)"
  from monitor_shape [OF this] obtain shown' where sh: "progress shown'"
    and c: "(\<exists>k returncode rest. tr = shown @ shown' @ [Exit returncode])
              \<or> tr = shown @ shown'
              \<or> (\<exists>s. tr = shown @ shown' @ [PrintRaised (ProgressLine s)])"
    by auto
  have "\<forall>e\<in>set shown'. P e" using sh assms(1) by (auto simp add: progress_def)
  then show "\<forall>e\<in>set tr. P e" using c assms by auto
qed

lemmas only_intros =
  only_and_then only_try_except only_print only_Popen only_raise only_gvd only_monitor only_Some

text \<open>
  The trace of process_video opens with the print of the path; every effect after it is
  one of: a print of another kind, the size of the input or of the output, one of the two
  probes, the start of the engine command, the end of the child.
\<close>

lemma process_video_effects:
  assumes pv: "process_video w p i n = Some (r, tr)"
    and pr: "\<And>m. (\<forall>q. m \<noteq> Processing q) \<Longrightarrow> (\<forall>q d. m \<noteq> ErrorProcessing q d)
                \<Longrightarrow> P (Print m) \<and> P (PrintRaised m)"
    and sz: "P (GetSize p)" "P (GetSize (output_path p))"
    and rn: "P (Run (probe_cmd p))" "P (Run (fallback_cmd p))"
    and sp: "P (Spawn (extract_cmd p (output_path p)))"
    and ex: "\<And>returncode. P (Exit returncode)"
  shows "\<exists>rest. (tr = Print (Processing p) # rest \<or> tr = PrintRaised (Processing p) # rest)
           \<and> (\<forall>e\<in>set rest. P e)"
  using pv unfolding process_video_def Let_def
proof (cases rule: and_then_cases)
  case (raised e)
  then have "tr = [PrintRaised (Processing p)]"
    by (auto simp add: py_print_def split: option.splits)
  then show ?thesis by simp
next
  case (passed x t1 t2)
  from passed(1) have t1: "t1 = [Print (Processing p)]"
    by (auto simp add: py_print_def split: option.splits)
  from passed(2) have "\<forall>e\<in>set t2. P e"
    by (rule only_D)
       (auto intro!: only_intros simp add: pr sz rn sp ex split: prod.split py_exception.split)
  then show ?thesis using t1 passed(3) by simp
qed

lemma attempted_Cons: "attempted (e # tr) = attempted [e] @ attempted tr"
  using attempted_append [of "[e]" tr] by simp

lemma failures_Cons: "failures (e # tr) = failures [e] @ failures tr"
  using failures_append [of "[e]" tr] by simp

lemma quiet_effects:
  assumes "\<forall>e\<in>set tr. quiet e"
  shows "attempted tr = []" "failures tr = []"
proof -
  have "attempted tr = [] \<and> failures tr = []"
    using assms
  proof (induction tr)
    case Nil
    show ?case by simp
  next
    case (Cons e tr)
    then have "attempted [e] = []" "failures [e] = []" "attempted tr = []" "failures tr = []"
      by (simp_all add: quiet_def)
    then show ?case
      using attempted_Cons [of e tr] failures_Cons [of e tr] by simp
  qed
  then show "attempted tr = []" "failures tr = []" by simp_all
qed

lemma quiet_print:
  "(\<forall>q. m \<noteq> Processing q) \<Longrightarrow> (\<forall>q d. m \<noteq> ErrorProcessing q d)
     \<Longrightarrow> quiet (Print m) \<and> quiet (PrintRaised m)"
  by (cases m) (simp_all add: quiet_def)

lemma quiet_others: "quiet (GetSize q)" "quiet (Run c)" "quiet (Spawn c)" "quiet (Exit rc)"
  by (simp_all add: quiet_def)

text \<open>The trace of process_video starts its file once, and records no failure.\<close>

lemma process_video_attempted:
  assumes "process_video w p i n = Some (r, tr)"
  shows "attempted tr = [p]" "failures tr = []"
proof -
  from process_video_effects [OF assms, of quiet] obtain rest where
    tr: "tr = Print (Processing p) # rest \<or> tr = PrintRaised (Processing p) # rest"
    and q: "\<forall>e\<in>set rest. quiet e"
    using quiet_print quiet_others by blast
  from quiet_effects [OF q] tr show "attempted tr = [p]" "failures tr = []" by auto
qed

lemma process_video_own:
  assumes "process_video w p i n = Some (r, tr)"
  shows "\<forall>e\<in>set tr. own_effect p e"
proof -
  from process_video_effects [OF assms, of "own_effect p"] obtain rest where
    tr: "tr = Print (Processing p) # rest \<or> tr = PrintRaised (Processing p) # rest"
    and q: "\<forall>e\<in>set rest. own_effect p e"
    by (auto simp add: own_effect_def)
  have "own_effect p (Print (Processing p))" "own_effect p (PrintRaised (Processing p))"
    by (simp_all add: own_effect_def)
  then show ?thesis using tr q by auto
qed

text \<open>process_video returns or raises when the engine child it starts ends.\<close>

lemma process_video_returns:
  assumes "\<forall>process. popen w (extract_cmd p (output_path p)) = Inr process \<longrightarrow> terminates process"
  shows "returns (process_video w p i n)"
proof -
  have m: "returns (and_then (Popen w (extract_cmd p (output_path p)))
                     (\<lambda>process. and_then (monitor w process 0 []) k))"
    if k: "\<And>x. returns (k x)" for k :: "int \<times> (py_exception + string) \<Rightarrow> unit comp"
  proof (cases "popen w (extract_cmd p (output_path p))")
    case (Inl e)
    then show ?thesis by (simp add: Popen_def)
  next
    case (Inr process)
    then have "terminates process" using assms by simp
    then have "returns (monitor w process 0 [])" by (rule monitor_terminates)
    then have "returns (and_then (monitor w process 0 []) k)"
      using k by (rule and_then_returns)
    then obtain r tr where "and_then (monitor w process 0 []) k = Some (r, tr)"
      by (rule returnsE)
    then show ?thesis using Inr by (simp add: Popen_def)
  qed
  show ?thesis
    unfolding process_video_def Let_def
    by (intro and_then_returns try_except_returns py_print_returns m)
       (auto intro!: and_then_returns py_print_returns raise_returns
             split: prod.split py_exception.split)
qed

section \<open>One invocation\<close>

lemma average_speed_value:
  "average_speed input_size process_time =
     Inr (if 0 < process_time then input_size / process_time else 0)"
  by (simp add: average_speed_def float_truediv_def)

text \<open>
  Claim C7. For every input size and elapsed time \<^verbatim>\<open>average_speed\<close> is a number and
  no division fault: it is 0 when the elapsed time is 0, and the input size divided by the
  elapsed time when the elapsed time is positive. (When the clock was set back and the
  difference of the two readings is negative, the guard \<^verbatim>\<open>process_time > 0\<close> gives 0
  as well.)
\<close>

theorem throughput:
  "(\<exists>v. average_speed input_size process_time = Inr v)
   \<and> (process_time = 0 \<longrightarrow> average_speed input_size process_time = Inr 0)
   \<and> (0 < process_time \<longrightarrow>
        average_speed input_size process_time = Inr (input_size / process_time))"
  by (simp add: average_speed_value)

theorem throughput_witness:
  "average_speed 10 0 = Inr 0 \<and> average_speed 10 4 = Inr (10 / 4)"
  using throughput [of 10 0] throughput [of 10 4] by simp

lemma gvd_example:
  "get_video_duration (example_world ''N/A'' ''12.5'' ch) p
     = (Inr (Finite 12.5), [Run (probe_cmd p), Run (fallback_cmd p)])"
  by (simp add: get_video_duration_def run_and_parse_def example_world_def probe_cmd_def
      fallback_cmd_def py_float_def strip_def is_space_def lower_def lower_char_def is_digit_def
      parse_decimal_def digits_value_def)

lemma popen_example:
  "popen (example_world out1 out2 second_fails) (extract_cmd (clip nm) (output_path (clip nm)))
     = Inr (if nm = ''CLIP.MP4'' then bad_child else good_child)"
  by (simp add: example_world_def second_fails_def extract_cmd_def output_path_def clip_def
      truediv_def parent_def name_def path_str_def)

lemma children_terminate: "terminates good_child" "terminates bad_child"
  by (auto simp: terminates_def good_child_def bad_child_def intro: exI [of _ 3])

text \<open>
  Claim C10. The output path that process_video computes is never the input path: its
  name is the input name behind the prefix \<^verbatim>\<open>normalized_\<close>, so it is longer, and for
  an input with a non-empty name the two paths are written differently. The engine
  command names the output path as its last argument, the one that \<^verbatim>\<open>-y\<close> lets it
  overwrite. The effects of process_video itself on files are reads of a size, of the
  input and of the output; it starts the two probes and that one engine command.
\<close>

theorem output_differs:
  "output_path p \<noteq> p
   \<and> name (output_path p) = ''normalized_'' @ name p
   \<and> length (name p) < length (name (output_path p))
   \<and> (name p \<noteq> [] \<longrightarrow> path_str (output_path p) \<noteq> path_str p)
   \<and> last (extract_cmd p (output_path p)) = path_str (output_path p)
   \<and> (process_video w p i n = Some (r, tr) \<longrightarrow> (\<forall>e\<in>set tr. own_effect p e))"
proof -
  have n: "name (output_path p) = ''normalized_'' @ name p"
    by (simp add: output_path_def truediv_def parent_def name_def)
  have s: "path_str (output_path p) \<noteq> path_str p" if "name p \<noteq> []"
  proof -
    from that have "tail p \<noteq> []" by (auto simp: name_def)
    from length_str_output_path [OF this] show ?thesis by auto
  qed
  have l: "last (extract_cmd p (output_path p)) = path_str (output_path p)"
    by (simp add: extract_cmd_def)
  show ?thesis
    using output_path_neq [of p] n s l process_video_own [of w p i n r tr] by simp
qed

theorem output_differs_witness:
  "name (clip ''a.mp4'') \<noteq> []
   \<and> path_str (output_path (clip ''a.mp4'')) \<noteq> path_str (clip ''a.mp4'')
   \<and> (\<exists>r tr. process_video (example_world ''N/A'' ''12.5'' second_fails) (clip ''a.mp4'') 1 3 = Some (r, tr)
         \<and> (\<forall>e\<in>set tr. own_effect (clip ''a.mp4'') e))"
proof -
  let ?w = "example_world ''N/A'' ''12.5'' second_fails"
  have nm: "name (clip ''a.mp4'') \<noteq> []"
    by (simp add: name_def clip_def)
  have "\<forall>process. popen ?w (extract_cmd (clip ''a.mp4'') (output_path (clip ''a.mp4''))) = Inr process
          \<longrightarrow> terminates process"
    by (simp add: popen_example children_terminate)
  then have "returns (process_video ?w (clip ''a.mp4'') 1 3)"
    by (rule process_video_returns)
  then obtain r tr where
    pv: "process_video ?w (clip ''a.mp4'') 1 3 = Some (r, tr)" by (rule returnsE)
  show ?thesis
    using nm pv output_differs [of "clip ''a.mp4''" ?w 1 3 r tr] by blast
qed

end
